theory Spec2Isabelle
  imports Main "HOL-Library.Word"
begin

section \<open>The IPFS-backed chunk store (package ipfs)\<close>

subsection \<open>Hashes, chunks and panics\<close>

text \<open>
  \<^verbatim>\<open>hash.Hash\<close> is declared in go/hash, which is not among the source files: a
  fixed-width digest, 20 bytes in Noms. \<^verbatim>\<open>hash.Hash{}\<close> is the all-zero digest.
\<close>

type_synonym hash = "160 word"

type_synonym bytes = "8 word list"

text \<open>
  \<^verbatim>\<open>chunks.Chunk\<close> (go/chunks, not among the source files) pairs a hash with the
  bytes it names. \<^verbatim>\<open>NewChunkWithHash\<close> stores the hash it is given,
  \<^verbatim>\<open>NewChunk\<close> computes it with the digest function of go/hash, which is a
  parameter \<open>hashOf\<close> here, and \<^verbatim>\<open>EmptyChunk\<close> is \<^verbatim>\<open>NewChunk([]byte{})\<close>.
\<close>

record Chunk =
  r :: hash
  data :: bytes

definition NewChunkWithHash :: "hash \<Rightarrow> bytes \<Rightarrow> Chunk" where
  "NewChunkWithHash h d = \<lparr>r = h, data = d\<rparr>"

definition NewChunk :: "(bytes \<Rightarrow> hash) \<Rightarrow> bytes \<Rightarrow> Chunk" where
  "NewChunk hashOf d = NewChunkWithHash (hashOf d) d"

definition EmptyChunk :: "(bytes \<Rightarrow> hash) \<Rightarrow> Chunk" where
  "EmptyChunk hashOf = NewChunk hashOf []"

definition Hash :: "Chunk \<Rightarrow> hash" where
  "Hash c = r c"

definition Data :: "Chunk \<Rightarrow> bytes" where
  "Data c = data c"

definition IsEmpty :: "Chunk \<Rightarrow> bool" where
  "IsEmpty c = (length (data c) = 0)"

text \<open>
  Errors of the backends, and the panics of the store: \<^verbatim>\<open>d.PanicIfError(err)\<close>
  panics with the error, \<^verbatim>\<open>d.PanicIfFalse\<close> and \<^verbatim>\<open>d.PanicIfTrue\<close> with a failed
  check, \<^verbatim>\<open>Set.At\<close> with an out-of-bounds message.
\<close>

datatype ioerr = ErrNotFound | ErrIO | ErrDecode

datatype panic = PanicError ioerr | PanicIfFalse | PanicIfTrue | OutOfBounds nat nat

subsection \<open>The IPFS node and the root files\<close>

text \<open>
  A CID as \<^verbatim>\<open>nomsHashToCID\<close> builds it: version 1, raw codec, over the multihash
  that wraps the 20 bytes of the Noms hash under the SHA2-512 code. \<^verbatim>\<open>mh.Encode\<close>
  fails on an unknown code only, so \<^verbatim>\<open>nomsHashToCID\<close> never panics, and
  \<^verbatim>\<open>cidToNomsHash\<close> reads the digest back.
\<close>

datatype cid = CidV1Raw hash

definition nomsHashToCID :: "hash \<Rightarrow> cid" where
  "nomsHashToCID nh = CidV1Raw nh"

fun cidToNomsHash :: "cid \<Rightarrow> hash" where
  "cidToNomsHash (CidV1Raw h) = h"

text \<open>
  The IPFS node (go-ipfs, an external library) as the store uses it: the local
  block store, the blocks the exchange can fetch from the network, and the CIDs on
  which the backend reports an I/O error. \<^verbatim>\<open>Blockstore.Get\<close> and
  \<^verbatim>\<open>Blockstore.Has\<close> look at the local blocks only; \<^verbatim>\<open>Blocks.GetBlock\<close> (the block
  service) falls through to the exchange; both answer \<^verbatim>\<open>ErrNotFound\<close> for a block
  they cannot find. \<^verbatim>\<open>Blockstore.Put\<close> and \<^verbatim>\<open>Blocks.AddBlock\<close> store the block
  locally, and \<^verbatim>\<open>AddBlock\<close> returns the CID of the block it was given.
\<close>

record IpfsNode =
  Blockstore :: "cid \<rightharpoonup> bytes"
  Exchange :: "cid \<rightharpoonup> bytes"
  ioFails :: "cid \<Rightarrow> bool"

record Block =
  RawData :: bytes
  Cid :: cid

definition NewBlockWithCid :: "bytes \<Rightarrow> cid \<Rightarrow> Block" where
  "NewBlockWithCid d c = \<lparr>RawData = d, Cid = c\<rparr>"

definition Blockstore_Get :: "IpfsNode \<Rightarrow> cid \<Rightarrow> ioerr + Block" where
  "Blockstore_Get n c =
     (if ioFails n c then Inl ErrIO
      else case Blockstore n c of
             None \<Rightarrow> Inl ErrNotFound
           | Some d \<Rightarrow> Inr (NewBlockWithCid d c))"

definition Blockstore_Has :: "IpfsNode \<Rightarrow> cid \<Rightarrow> ioerr + bool" where
  "Blockstore_Has n c =
     (if ioFails n c then Inl ErrIO else Inr (Blockstore n c \<noteq> None))"

definition Blockstore_Put :: "IpfsNode \<Rightarrow> Block \<Rightarrow> ioerr + IpfsNode" where
  "Blockstore_Put n b =
     (if ioFails n (Cid b) then Inl ErrIO
      else Inr (n\<lparr>Blockstore := (Blockstore n)(Cid b \<mapsto> RawData b)\<rparr>))"

definition Blocks_GetBlock :: "IpfsNode \<Rightarrow> cid \<Rightarrow> ioerr + Block" where
  "Blocks_GetBlock n c =
     (if ioFails n c then Inl ErrIO
      else case Blockstore n c of
             Some d \<Rightarrow> Inr (NewBlockWithCid d c)
           | None \<Rightarrow>
               (case Exchange n c of
                  Some d \<Rightarrow> Inr (NewBlockWithCid d c)
                | None \<Rightarrow> Inl ErrNotFound))"

definition Blocks_AddBlock :: "IpfsNode \<Rightarrow> Block \<Rightarrow> ioerr + (cid \<times> IpfsNode)" where
  "Blocks_AddBlock n b =
     (case Blockstore_Put n b of
        Inl e \<Rightarrow> Inl e
      | Inr n' \<Rightarrow> Inr (Cid b, n'))"

text \<open>
  The two files under the directory \<^verbatim>\<open>cs.name\<close> that hold the root:
  \<^verbatim>\<open>getLocalNameFile(true)\<close> is \<^verbatim>\<open>noms-local\<close>, \<^verbatim>\<open>getLocalNameFile(false)\<close> is
  \<^verbatim>\<open>noms\<close>. A file is absent, unreadable, or holds a text; the text is kept as
  \<^verbatim>\<open>cid.Decode\<close> (go-cid, external) reads it: the empty string, the text
  \<^verbatim>\<open>cid.String()\<close> of a CID, or a text that \<^verbatim>\<open>cid.Decode\<close> rejects.
  \<^verbatim>\<open>ioutil.WriteFile\<close> fails on the files marked in \<open>writeFails\<close>.
\<close>

datatype nameFile = NomsLocal | Noms

datatype rootText = EmptyText | CidText cid | BadText

datatype rootFile = NotExist | Unreadable | Contents rootText

record files =
  nomsLocalFile :: rootFile
  nomsFile :: rootFile
  writeFails :: "nameFile \<Rightarrow> bool"

definition getLocalNameFile :: "bool \<Rightarrow> nameFile" where
  "getLocalNameFile local = (if local then NomsLocal else Noms)"

fun ReadFile :: "files \<Rightarrow> nameFile \<Rightarrow> rootFile" where
  "ReadFile fs NomsLocal = nomsLocalFile fs"
| "ReadFile fs Noms = nomsFile fs"

fun WriteFile :: "files \<Rightarrow> nameFile \<Rightarrow> rootText \<Rightarrow> ioerr + files" where
  "WriteFile fs NomsLocal t =
     (if writeFails fs NomsLocal then Inl ErrIO else Inr (fs\<lparr>nomsLocalFile := Contents t\<rparr>))"
| "WriteFile fs Noms t =
     (if writeFails fs Noms then Inl ErrIO else Inr (fs\<lparr>nomsFile := Contents t\<rparr>))"

subsection \<open>The store\<close>

text \<open>
  \<^verbatim>\<open>chunkStore\<close>: the cached root (a pointer, nil until the first
  \<^verbatim>\<open>Rebase\<close>), the node, the files under \<^verbatim>\<open>name\<close>, and the mode. The rate
  limiter (\<^verbatim>\<open>RateLimitAdd\<close>, \<^verbatim>\<open>RateLimitSub\<close>) admits 1024 operations at a time
  and leaves the store as it found it: a call running alone never waits on it, and
  it is not part of the state here.
\<close>

record chunkStore =
  root :: "hash option"
  node :: IpfsNode
  nameFiles :: files
  local :: bool

definition Get :: "(bytes \<Rightarrow> hash) \<Rightarrow> chunkStore \<Rightarrow> hash \<Rightarrow> panic + Chunk" where
  "Get hashOf cs h =
     (let c = nomsHashToCID h in
      if local cs then
        (case Blockstore_Get (node cs) c of
           Inl ErrNotFound \<Rightarrow> Inr (EmptyChunk hashOf)
         | Inl err \<Rightarrow> Inl (PanicError err)
         | Inr b \<Rightarrow> Inr (NewChunkWithHash h (RawData b)))
      else
        (case Blocks_GetBlock (node cs) c of
           Inl ErrNotFound \<Rightarrow> Inr (EmptyChunk hashOf)
         | Inl err \<Rightarrow> Inl (PanicError err)
         | Inr b \<Rightarrow> Inr (NewChunkWithHash h (RawData b))))"

definition Has :: "(bytes \<Rightarrow> hash) \<Rightarrow> chunkStore \<Rightarrow> hash \<Rightarrow> panic + bool" where
  "Has hashOf cs h =
     (let id = nomsHashToCID h in
      if local cs then
        (case Blockstore_Has (node cs) id of
           Inl err \<Rightarrow> Inl (PanicError err)
         | Inr ok \<Rightarrow> Inr ok)
      else
        (case Get hashOf cs h of
           Inl p \<Rightarrow> Inl p
         | Inr c \<Rightarrow> Inr (\<not> IsEmpty c)))"

text \<open>
  \<^verbatim>\<open>Put\<close>. \<^verbatim>\<open>blocks.NewBlockWithCid\<close> checks the CID against the data in debug
  builds only and is taken to succeed.
\<close>

definition Put :: "chunkStore \<Rightarrow> Chunk \<Rightarrow> panic + chunkStore" where
  "Put cs c =
     (let cid = nomsHashToCID (Hash c);
          b = NewBlockWithCid (Data c) cid in
      if local cs then
        (case Blockstore_Put (node cs) b of
           Inl err \<Rightarrow> Inl (PanicError err)
         | Inr n' \<Rightarrow> Inr (cs\<lparr>node := n'\<rparr>))
      else
        (case Blocks_AddBlock (node cs) b of
           Inl err \<Rightarrow> Inl (PanicError err)
         | Inr (cid2, n') \<Rightarrow>
             if cid = cid2 then Inr (cs\<lparr>node := n'\<rparr>) else Inl PanicIfFalse))"

text \<open>
  \<^verbatim>\<open>HasMany\<close>. A \<^verbatim>\<open>hash.HashSet\<close> is a Go map used as a set; \<open>hashes\<close> lists its
  keys in the order the \<^verbatim>\<open>range\<close> loop visits them. In the local mode the loop
  asks \<^verbatim>\<open>Has\<close> for each hash in turn. In the other mode the loop starts one goroutine
  per hash and the function returns \<open>misses\<close> without waiting for them
  (\<^verbatim>\<open>wg.Wait()\<close> is never called): the map it returns holds what the goroutines that
  have already finished put there, and \<open>finished\<close> lists the hashes those goroutines
  checked.
\<close>

fun HasMany_loop ::
  "(bytes \<Rightarrow> hash) \<Rightarrow> chunkStore \<Rightarrow> hash list \<Rightarrow> hash set \<Rightarrow> panic + hash set" where
  "HasMany_loop hashOf cs [] misses = Inr misses"
| "HasMany_loop hashOf cs (h # hs) misses =
     (case Has hashOf cs h of
        Inl p \<Rightarrow> Inl p
      | Inr ok \<Rightarrow> HasMany_loop hashOf cs hs (if \<not> ok then insert h misses else misses))"

definition HasMany ::
  "(bytes \<Rightarrow> hash) \<Rightarrow> chunkStore \<Rightarrow> hash list \<Rightarrow> hash list \<Rightarrow> panic + hash set" where
  "HasMany hashOf cs hashes finished =
     (if local cs then HasMany_loop hashOf cs hashes {}
      else HasMany_loop hashOf cs finished {})"

definition Rebase :: "chunkStore \<Rightarrow> panic + chunkStore" where
  "Rebase cs =
     (let f = getLocalNameFile (local cs) in
      case ReadFile (nameFiles cs) f of
        Unreadable \<Rightarrow> Inl (PanicError ErrIO)
      | NotExist \<Rightarrow> Inr (cs\<lparr>root := Some 0\<rparr>)
      | Contents EmptyText \<Rightarrow> Inr (cs\<lparr>root := Some 0\<rparr>)
      | Contents BadText \<Rightarrow> Inl (PanicError ErrDecode)
      | Contents (CidText c) \<Rightarrow> Inr (cs\<lparr>root := Some (cidToNomsHash c)\<rparr>))"

definition Root :: "chunkStore \<Rightarrow> panic + (hash \<times> chunkStore)" where
  "Root cs =
     (case root cs of
        Some h \<Rightarrow> Inr (h, cs)
      | None \<Rightarrow>
          (case Rebase cs of
             Inl p \<Rightarrow> Inl p
           | Inr cs' \<Rightarrow>
               (case root cs' of
                  Some h \<Rightarrow> Inr (h, cs')
                | None \<Rightarrow> Inl (PanicError ErrIO))))"

definition Commit :: "chunkStore \<Rightarrow> hash \<Rightarrow> hash \<Rightarrow> panic + (bool \<times> chunkStore)" where
  "Commit cs current last' =
     (if root cs \<noteq> None \<and> root cs = Some current then Inr (True, cs)
      else
        let cid = nomsHashToCID current;
            w1 = (if local cs then WriteFile (nameFiles cs) (getLocalNameFile True) (CidText cid)
                  else Inr (nameFiles cs))
        in case w1 of
             Inl err \<Rightarrow> Inl (PanicError err)
           | Inr fs1 \<Rightarrow>
               (case WriteFile fs1 (getLocalNameFile False) (CidText cid) of
                  Inl err \<Rightarrow> Inl (PanicError err)
                | Inr fs2 \<Rightarrow> Inr (True, cs\<lparr>nameFiles := fs2, root := Some current\<rparr>)))"

text \<open>
  The persisted root of a store: what \<^verbatim>\<open>Rebase\<close> reads from the root file of the
  store's mode.
\<close>

definition persistedRoot :: "chunkStore \<Rightarrow> panic + hash" where
  "persistedRoot cs =
     (case Rebase cs of
        Inl p \<Rightarrow> Inl p
      | Inr cs' \<Rightarrow> (case root cs' of Some h \<Rightarrow> Inr h | None \<Rightarrow> Inl (PanicError ErrIO)))"

text \<open>
  A hash is absent from a store when the backend the store's mode reads has no
  block under its CID: the local block store, and for a store that is not local
  the exchange as well.
\<close>

definition absent :: "chunkStore \<Rightarrow> hash \<Rightarrow> bool" where
  "absent cs h =
     (Blockstore (node cs) (nomsHashToCID h) = None \<and>
      (local cs \<or> Exchange (node cs) (nomsHashToCID h) = None))"

text \<open>A run of \<^verbatim>\<open>Put\<close> calls, stopping at the first panic.\<close>

fun PutAll :: "chunkStore \<Rightarrow> Chunk list \<Rightarrow> panic + chunkStore" where
  "PutAll cs [] = Inr cs"
| "PutAll cs (c # rest) = (case Put cs c of Inl p \<Rightarrow> Inl p | Inr cs1 \<Rightarrow> PutAll cs1 rest)"

subsection \<open>Concrete stores\<close>

text \<open>
  Stores on which the operations are evaluated: no I/O error, nothing on the
  network, the given blocks (by Noms hash) in the local block store, both root
  files with the same content.
\<close>

definition exampleNode :: "(hash \<times> bytes) list \<Rightarrow> IpfsNode" where
  "exampleNode stored =
     \<lparr>Blockstore = map_of (map (\<lambda>(h, d). (nomsHashToCID h, d)) stored),
      Exchange = map_of [],
      ioFails = (\<lambda>c. False)\<rparr>"

definition exampleStore ::
  "bool \<Rightarrow> hash option \<Rightarrow> rootFile \<Rightarrow> (hash \<times> bytes) list \<Rightarrow> chunkStore" where
  "exampleStore loc cached f stored =
     \<lparr>root = cached, node = exampleNode stored,
      nameFiles = \<lparr>nomsLocalFile = f, nomsFile = f, writeFails = (\<lambda>f. False)\<rparr>,
      local = loc\<rparr>"

definition rootFileOf :: "hash \<Rightarrow> rootFile" where
  "rootFileOf h = Contents (CidText (nomsHashToCID h))"

definition exampleHashOf :: "bytes \<Rightarrow> hash" where
  "exampleHashOf d = of_nat (length d)"

section \<open>Sets (package types)\<close>

subsection \<open>Values and sequences\<close>

text \<open>
  A Noms \<^verbatim>\<open>Value\<close> is an element of a type \<open>'v\<close> with a linear order:
  \<^verbatim>\<open>Value.Less\<close> is the Noms sort order \<open><\<close>, \<^verbatim>\<open>Value.Equals\<close> is \<open>=\<close>. A value of
  the Go interface type that may be nil is a \<open>'v option\<close>.
\<close>

text \<open>
  Modelled from the spec: the sequence node (\<^verbatim>\<open>orderedSequence\<close>, whose files are
  not among the sources). A leaf holds an ordered list of items; a metadata node
  holds an ordered list of (child, summary key, subtree item count) triples. The
  child stands for the chunk its hash names.
\<close>

datatype 'v sequence = Leaf "'v list" | Meta "'v metaTuple list"
and 'v metaTuple = MetaTuple (child: "'v sequence") (key: "'v option") (numLeavesOf: nat)

text \<open>
  Modelled from the spec: \<^verbatim>\<open>numLeaves()\<close>, the aggregate item count, read at a
  metadata node from the stored subtree counts.
\<close>

fun numLeaves :: "'v sequence \<Rightarrow> nat" where
  "numLeaves (Leaf vs) = length vs"
| "numLeaves (Meta ts) = sum_list (map numLeavesOf ts)"

text \<open>The items under a node, left to right.\<close>

fun items :: "'v sequence \<Rightarrow> 'v list" and tupleItems :: "'v metaTuple \<Rightarrow> 'v list" where
  "items (Leaf vs) = vs"
| "items (Meta ts) = concat (map tupleItems ts)"
| "tupleItems (MetaTuple c k n) = items c"

text \<open>\<^verbatim>\<open>type Set struct { seq orderedSequence }\<close> and \<^verbatim>\<open>newSet\<close>.\<close>

record 'v Set =
  seq :: "'v sequence"

definition newSet :: "'v sequence \<Rightarrow> 'v Set" where
  "newSet s = \<lparr>seq = s\<rparr>"

subsection \<open>buildSetData and the leaf chunk function\<close>

text \<open>
  \<^verbatim>\<open>buildSetData\<close>: \<^verbatim>\<open>sort.Stable(values)\<close> is the stable sort \<open>sort\<close>; the loop
  runs over \<^verbatim>\<open>values[1:]\<close> with \<^verbatim>\<open>last\<close> starting at \<^verbatim>\<open>values[0]\<close>, appends
  \<^verbatim>\<open>last\<close> to \<^verbatim>\<open>uniqueSorted\<close> whenever the next value differs from it, and the
  result is \<^verbatim>\<open>append(uniqueSorted, last)\<close>.
\<close>

fun buildSetData_loop :: "'v list \<Rightarrow> 'v \<Rightarrow> 'v list \<Rightarrow> 'v list \<times> 'v" where
  "buildSetData_loop [] last' uniqueSorted = (uniqueSorted, last')"
| "buildSetData_loop (v # rest) last' uniqueSorted =
     buildSetData_loop rest v (if v \<noteq> last' then uniqueSorted @ [last'] else uniqueSorted)"

definition buildSetData :: "'v::linorder list \<Rightarrow> 'v list" where
  "buildSetData values =
     (if length values = 0 then []
      else case sort values of
             [] \<Rightarrow> []
           | v0 # rest \<Rightarrow>
               (case buildSetData_loop rest v0 [] of
                  (uniqueSorted, last') \<Rightarrow> uniqueSorted @ [last']))"

text \<open>
  \<^verbatim>\<open>makeSetLeafChunkFn\<close>: panics unless the level is 0 and every item is greater
  than the one before it; returns the leaf as a set, the key of its last item (none
  for an empty leaf) and the number of items.
\<close>

fun makeSetLeafChunkFn_loop ::
  "'v::linorder list \<Rightarrow> 'v option \<Rightarrow> 'v list \<Rightarrow> panic + 'v list" where
  "makeSetLeafChunkFn_loop [] lastValue setData = Inr setData"
| "makeSetLeafChunkFn_loop (v # rest) lastValue setData =
     (case lastValue of
        None \<Rightarrow> makeSetLeafChunkFn_loop rest (Some v) (setData @ [v])
      | Some l \<Rightarrow>
          if l < v then makeSetLeafChunkFn_loop rest (Some v) (setData @ [v])
          else Inl PanicIfFalse)"

definition makeSetLeafChunkFn ::
  "nat \<Rightarrow> 'v::linorder list \<Rightarrow> panic + ('v Set \<times> 'v option \<times> nat)" where
  "makeSetLeafChunkFn level its =
     (if level \<noteq> 0 then Inl PanicIfFalse
      else case makeSetLeafChunkFn_loop its None [] of
             Inl p \<Rightarrow> Inl p
           | Inr setData \<Rightarrow>
               Inr (newSet (Leaf setData),
                    (if length setData > 0 then Some (setData ! (length setData - 1)) else None),
                    length its))"

text \<open>
  Modelled from the spec: \<^verbatim>\<open>newOrderedMetaSequenceChunkFn\<close> (not among the
  sources), the chunk function of the metadata levels: the node over the given
  triples, with the summary key of its last triple and the sum of their counts.
\<close>

definition newOrderedMetaSequenceChunkFn ::
  "nat \<Rightarrow> 'v metaTuple list \<Rightarrow> panic + ('v Set \<times> 'v option \<times> nat)" where
  "newOrderedMetaSequenceChunkFn level tuples =
     Inr (newSet (Meta tuples),
          (if length tuples > 0 then key (tuples ! (length tuples - 1)) else None),
          sum_list (map numLeavesOf tuples))"

subsection \<open>The sequence chunker\<close>

text \<open>
  Modelled from the spec: the sequence chunker (\<^verbatim>\<open>sequenceChunker\<close>, not among the
  sources). It holds the in-progress leaf buffer and the in-progress buffers of the
  parent levels, lowest level first. \<open>hashValueBytes\<close> stands for the boundary
  function (the rolling checksum fed by \<^verbatim>\<open>hashValueBytes\<close>): after an append it
  tells at how many levels in a row, counted from the leaf level, the checksum
  matched the target pattern; 0 means no boundary.
\<close>

record ('v, 'w) sequenceChunker =
  vrw :: "'w option"
  makeChunk :: "nat \<Rightarrow> 'v list \<Rightarrow> panic + ('v Set \<times> 'v option \<times> nat)"
  parentMakeChunk :: "nat \<Rightarrow> 'v metaTuple list \<Rightarrow> panic + ('v Set \<times> 'v option \<times> nat)"
  hashValueBytes :: "'v list \<Rightarrow> 'v metaTuple list list \<Rightarrow> nat"
  buffer :: "'v list"
  parentBuffers :: "'v metaTuple list list"

text \<open>Modelled from the spec: \<^verbatim>\<open>newEmptySequenceChunker\<close>, a chunker with no item yet.\<close>

definition newEmptySequenceChunker ::
  "'w option \<Rightarrow> (nat \<Rightarrow> 'v list \<Rightarrow> panic + ('v Set \<times> 'v option \<times> nat)) \<Rightarrow>
   (nat \<Rightarrow> 'v metaTuple list \<Rightarrow> panic + ('v Set \<times> 'v option \<times> nat)) \<Rightarrow>
   ('v list \<Rightarrow> 'v metaTuple list list \<Rightarrow> nat) \<Rightarrow> ('v, 'w) sequenceChunker" where
  "newEmptySequenceChunker w mk pmk hvb =
     \<lparr>vrw = w, makeChunk = mk, parentMakeChunk = pmk, hashValueBytes = hvb,
      buffer = [], parentBuffers = []\<rparr>"

text \<open>\<^verbatim>\<open>newEmptySetSequenceChunker\<close>, as in set.go.\<close>

definition newEmptySetSequenceChunker ::
  "('v::linorder list \<Rightarrow> 'v metaTuple list list \<Rightarrow> nat) \<Rightarrow> 'w option \<Rightarrow>
   ('v, 'w) sequenceChunker" where
  "newEmptySetSequenceChunker hvb w =
     newEmptySequenceChunker w makeSetLeafChunkFn newOrderedMetaSequenceChunkFn hvb"

text \<open>
  Modelled from the spec: the triple that a sealed chunk contributes to the parent
  level's buffer.
\<close>

definition toTuple :: "'v Set \<times> 'v option \<times> nat \<Rightarrow> 'v metaTuple" where
  "toTuple c = (case c of (s, k, n) \<Rightarrow> MetaTuple (seq s) k n)"

text \<open>
  Modelled from the spec: a sealed chunk's triple is appended to the parent level's
  buffer and the boundary test is applied one level up, recursively; \<open>d\<close> is the
  number of further levels at which the test matches. A level that does not exist
  yet is created.
\<close>

fun handleChunkBoundary ::
  "(nat \<Rightarrow> 'v metaTuple list \<Rightarrow> panic + ('v Set \<times> 'v option \<times> nat)) \<Rightarrow>
   nat \<Rightarrow> nat \<Rightarrow> 'v metaTuple \<Rightarrow> 'v metaTuple list list \<Rightarrow> panic + 'v metaTuple list list" where
  "handleChunkBoundary pmk level 0 t [] = Inr [[t]]"
| "handleChunkBoundary pmk level 0 t (b # bs) = Inr ((b @ [t]) # bs)"
| "handleChunkBoundary pmk level (Suc d) t [] =
     (case pmk level [t] of
        Inl p \<Rightarrow> Inl p
      | Inr c \<Rightarrow>
          (case handleChunkBoundary pmk (Suc level) d (toTuple c) [] of
             Inl p \<Rightarrow> Inl p
           | Inr bs' \<Rightarrow> Inr ([] # bs')))"
| "handleChunkBoundary pmk level (Suc d) t (b # bs) =
     (case pmk level (b @ [t]) of
        Inl p \<Rightarrow> Inl p
      | Inr c \<Rightarrow>
          (case handleChunkBoundary pmk (Suc level) d (toTuple c) bs of
             Inl p \<Rightarrow> Inl p
           | Inr bs' \<Rightarrow> Inr ([] # bs')))"

text \<open>
  Modelled from the spec: \<^verbatim>\<open>Append\<close>. The item is appended to the in-progress leaf
  buffer; if the boundary function matches, the buffer is sealed into a leaf chunk
  and its triple goes to the parent level.
\<close>

definition Append :: "('v, 'w) sequenceChunker \<Rightarrow> 'v \<Rightarrow> panic + ('v, 'w) sequenceChunker" where
  "Append sc item =
     (let cur = buffer sc @ [item];
          crossed = hashValueBytes sc cur (parentBuffers sc)
      in if crossed = 0 then Inr (sc\<lparr>buffer := cur\<rparr>)
         else case makeChunk sc 0 cur of
                Inl p \<Rightarrow> Inl p
              | Inr c \<Rightarrow>
                  (case handleChunkBoundary (parentMakeChunk sc) 1 (crossed - 1) (toTuple c)
                          (parentBuffers sc) of
                     Inl p \<Rightarrow> Inl p
                   | Inr ps \<Rightarrow> Inr (sc\<lparr>buffer := [], parentBuffers := ps\<rparr>)))"

text \<open>
  Modelled from the spec: sealing the open buffers of every level, lowest first, when
  the chunker is done; \<open>pending\<close> is what the level below has just sealed. A single chunk at the
  top is the root; more than one chunk at the top get a new metadata level above
  them. With no item at all the root is a single empty leaf.
\<close>

fun doneParents ::
  "(nat \<Rightarrow> 'v metaTuple list \<Rightarrow> panic + ('v Set \<times> 'v option \<times> nat)) \<Rightarrow>
   nat \<Rightarrow> 'v metaTuple list \<Rightarrow> 'v metaTuple list list \<Rightarrow> panic + 'v sequence" where
  "doneParents pmk level pending [] =
     (case pending of
        [] \<Rightarrow> Inr (Leaf [])
      | [t] \<Rightarrow> Inr (child t)
      | ts \<Rightarrow> (case pmk level ts of Inl p \<Rightarrow> Inl p | Inr c \<Rightarrow> Inr (seq (fst c))))"
| "doneParents pmk level pending (b # bs) =
     (let ts = b @ pending in
      if ts = [] then doneParents pmk (Suc level) [] bs
      else if bs = [] then doneParents pmk level ts []
      else case pmk level ts of
             Inl p \<Rightarrow> Inl p
           | Inr c \<Rightarrow> doneParents pmk (Suc level) [toTuple c] bs)"

text \<open>
  Modelled from the spec: \<^verbatim>\<open>Done\<close>. A chunker that never sealed a chunk returns its
  leaf buffer as the root, empty or not; otherwise the open leaf buffer, if it holds
  an item, is sealed first.
\<close>

definition Done :: "('v, 'w) sequenceChunker \<Rightarrow> panic + 'v sequence" where
  "Done sc =
     (if parentBuffers sc = [] then
        (case makeChunk sc 0 (buffer sc) of
           Inl p \<Rightarrow> Inl p
         | Inr c \<Rightarrow> Inr (seq (fst c)))
      else if buffer sc = [] then doneParents (parentMakeChunk sc) 1 [] (parentBuffers sc)
      else case makeChunk sc 0 (buffer sc) of
             Inl p \<Rightarrow> Inl p
           | Inr c \<Rightarrow> doneParents (parentMakeChunk sc) 1 [toTuple c] (parentBuffers sc))"

subsection \<open>NewSet and NewStreamingSet\<close>

text \<open>
  \<^verbatim>\<open>NewSet\<close>: the loop \<^verbatim>\<open>for _, v := range data { ch.Append(v) }\<close> is \<open>appendAll\<close>.
  The values given to \<^verbatim>\<open>NewSet\<close> are values proper (not nil).
\<close>

fun appendAll :: "('v, 'w) sequenceChunker \<Rightarrow> 'v list \<Rightarrow> panic + ('v, 'w) sequenceChunker" where
  "appendAll ch [] = Inr ch"
| "appendAll ch (v # rest) =
     (case Append ch v of Inl p \<Rightarrow> Inl p | Inr ch' \<Rightarrow> appendAll ch' rest)"

definition NewSet ::
  "('v::linorder list \<Rightarrow> 'v metaTuple list list \<Rightarrow> nat) \<Rightarrow> 'w option \<Rightarrow> 'v list \<Rightarrow>
   panic + 'v Set" where
  "NewSet hvb w v =
     (let data = buildSetData v;
          ch = newEmptySetSequenceChunker hvb w
      in case appendAll ch data of
           Inl p \<Rightarrow> Inl p
         | Inr ch' \<Rightarrow> (case Done ch' of Inl p \<Rightarrow> Inl p | Inr s \<Rightarrow> Inr (newSet s)))"

text \<open>
  \<^verbatim>\<open>readSetInput\<close>: \<open>vChan\<close> lists the values sent on the input channel before it
  is closed, \<open>None\<close> for a nil value. The result is the set sent to the output
  channel, or the panic of the reading goroutine.
\<close>

fun readSetInput_loop ::
  "'v::linorder option list \<Rightarrow> 'v option \<Rightarrow> ('v, 'w) sequenceChunker \<Rightarrow>
   panic + ('v, 'w) sequenceChunker" where
  "readSetInput_loop [] lastV ch = Inr ch"
| "readSetInput_loop (None # rest) lastV ch = Inl PanicIfTrue"
| "readSetInput_loop (Some v # rest) lastV ch =
     (if lastV \<noteq> None \<and> \<not> (case lastV of Some l \<Rightarrow> l < v | None \<Rightarrow> True)
      then Inl PanicIfFalse
      else case Append ch v of
             Inl p \<Rightarrow> Inl p
           | Inr ch' \<Rightarrow> readSetInput_loop rest (Some v) ch')"

definition readSetInput ::
  "('v::linorder list \<Rightarrow> 'v metaTuple list list \<Rightarrow> nat) \<Rightarrow> 'w option \<Rightarrow> 'v option list \<Rightarrow>
   panic + 'v Set" where
  "readSetInput hvb w vChan =
     (let ch = newEmptySetSequenceChunker hvb w in
      case readSetInput_loop vChan None ch of
        Inl p \<Rightarrow> Inl p
      | Inr ch' \<Rightarrow> (case Done ch' of Inl p \<Rightarrow> Inl p | Inr s \<Rightarrow> Inr (newSet s)))"

definition newStreamingSet ::
  "'w option \<Rightarrow> 'v option list \<Rightarrow> ('w option \<Rightarrow> 'v option list \<Rightarrow> panic + 'v Set) \<Rightarrow>
   panic + 'v Set" where
  "newStreamingSet w vChan readFunc =
     (if w = None then Inl PanicIfTrue else readFunc w vChan)"

definition NewStreamingSet ::
  "('v::linorder list \<Rightarrow> 'v metaTuple list list \<Rightarrow> nat) \<Rightarrow> 'w option \<Rightarrow> 'v option list \<Rightarrow>
   panic + 'v Set" where
  "NewStreamingSet hvb w vChan = newStreamingSet w vChan (readSetInput hvb)"

subsection \<open>Len, Empty, At and iteration\<close>

definition Len :: "'v Set \<Rightarrow> nat" where
  "Len s = numLeaves (seq s)"

definition Empty :: "'v Set \<Rightarrow> bool" where
  "Empty s = (Len s = 0)"

text \<open>
  Modelled from the spec: seek by index. The stored subtree counts select the child
  that holds position \<open>i\<close> (prefix sums); there is no item at a position beyond the
  end.
\<close>

fun seekByIndex :: "'v sequence \<Rightarrow> nat \<Rightarrow> 'v option"
  and seekChildren :: "'v metaTuple list \<Rightarrow> nat \<Rightarrow> 'v option" where
  "seekByIndex (Leaf vs) i = (if i < length vs then Some (vs ! i) else None)"
| "seekByIndex (Meta ts) i = seekChildren ts i"
| "seekChildren [] i = None"
| "seekChildren (MetaTuple c k n # ts) i =
     (if i < n then seekByIndex c i else seekChildren ts (i - n))"

text \<open>
  Modelled from the spec: the cursor (\<^verbatim>\<open>sequenceCursor\<close>, not among the sources), a
  position in a sequence tree. It is kept as the root and the index of the current
  item; the frames from the root to the leaf are the path \<open>seekByIndex\<close> walks. A
  cursor is valid while it stands on an item, \<^verbatim>\<open>current()\<close> panics on a cursor
  that does not, and \<^verbatim>\<open>advance()\<close> moves one item and stays at the end once there.
\<close>

record 'v sequenceCursor =
  cursorSeq :: "'v sequence"
  cursorIdx :: nat

text \<open>Modelled from the spec: \<^verbatim>\<open>newCursorAtIndex\<close>, the cursor at position \<open>i\<close>.\<close>

definition newCursorAtIndex :: "'v sequence \<Rightarrow> nat \<Rightarrow> 'v sequenceCursor" where
  "newCursorAtIndex s i = \<lparr>cursorSeq = s, cursorIdx = i\<rparr>"

text \<open>Modelled from the spec: \<^verbatim>\<open>valid()\<close>.\<close>

definition valid :: "'v sequenceCursor \<Rightarrow> bool" where
  "valid cur = (cursorIdx cur < numLeaves (cursorSeq cur))"

text \<open>Modelled from the spec: \<^verbatim>\<open>current()\<close>.\<close>

definition current :: "'v sequenceCursor \<Rightarrow> panic + 'v" where
  "current cur =
     (case seekByIndex (cursorSeq cur) (cursorIdx cur) of
        None \<Rightarrow> Inl PanicIfFalse
      | Some v \<Rightarrow> Inr v)"

text \<open>Modelled from the spec: \<^verbatim>\<open>advance()\<close>.\<close>

definition advance :: "'v sequenceCursor \<Rightarrow> 'v sequenceCursor" where
  "advance cur = (if valid cur then cur\<lparr>cursorIdx := cursorIdx cur + 1\<rparr> else cur)"

text \<open>
  Modelled from the spec: \<^verbatim>\<open>iter(cb)\<close> hands the items to the callback, forward
  from the cursor, until the callback asks to stop or the cursor leaves the
  sequence. The result lists the items the callback was given.
\<close>

function iter :: "('v \<Rightarrow> bool) \<Rightarrow> 'v sequenceCursor \<Rightarrow> panic + 'v list" where
  "iter cb cur =
     (if valid cur then
        (case current cur of
           Inl p \<Rightarrow> Inl p
         | Inr v \<Rightarrow>
             if cb v then Inr [v]
             else (case iter cb (advance cur) of
                     Inl p \<Rightarrow> Inl p
                   | Inr vs \<Rightarrow> Inr (v # vs)))
      else Inr [])"
  by pat_completeness auto
termination
  by (relation "measure (\<lambda>(cb, cur). numLeaves (cursorSeq cur) - cursorIdx cur)")
     (auto simp: valid_def advance_def)

declare iter.simps [simp del]

text \<open>
  \<^verbatim>\<open>Set.Iter\<close>, \<^verbatim>\<open>Set.IterAll\<close> and \<^verbatim>\<open>Set.At\<close>. \<^verbatim>\<open>newCursorAt(s.seq, emptyKey, ...)\<close>
  is the cursor at the first item. \<^verbatim>\<open>IterAll\<close>'s callback never asks to stop.
\<close>

definition Iter :: "'v Set \<Rightarrow> ('v \<Rightarrow> bool) \<Rightarrow> panic + 'v list" where
  "Iter s cb = iter cb (newCursorAtIndex (seq s) 0)"

definition IterAll :: "'v Set \<Rightarrow> panic + 'v list" where
  "IterAll s = iter (\<lambda>v. False) (newCursorAtIndex (seq s) 0)"

definition At :: "'v Set \<Rightarrow> nat \<Rightarrow> panic + 'v" where
  "At s i =
     (if i \<ge> Len s then Inl (OutOfBounds i (Len s))
      else current (newCursorAtIndex (seq s) i))"

text \<open>
  The invariant of a set value: the stored subtree counts are the item counts of
  the children, and the items are strictly increasing.
\<close>

fun wfSeq :: "'v sequence \<Rightarrow> bool" and wfTuple :: "'v metaTuple \<Rightarrow> bool" where
  "wfSeq (Leaf vs) = True"
| "wfSeq (Meta ts) = list_all wfTuple ts"
| "wfTuple (MetaTuple c k n) = (wfSeq c \<and> n = length (items c))"

definition setInvariant :: "'v::linorder Set \<Rightarrow> bool" where
  "setInvariant s = (wfSeq (seq s) \<and> sorted_wrt (<) (items (seq s)))"

text \<open>What a chunker holds, in order, and what the proofs keep about it.\<close>

definition bufItems :: "'v metaTuple list list \<Rightarrow> 'v list" where
  "bufItems ps = concat (map (\<lambda>b. concat (map tupleItems b)) (rev ps))"

definition chunkerItems :: "('v, 'w) sequenceChunker \<Rightarrow> 'v list" where
  "chunkerItems sc = bufItems (parentBuffers sc) @ buffer sc"

definition chunkerInv :: "('v::linorder, 'w) sequenceChunker \<Rightarrow> bool" where
  "chunkerInv sc =
     (makeChunk sc = makeSetLeafChunkFn \<and>
      parentMakeChunk sc = newOrderedMetaSequenceChunkFn \<and>
      list_all (list_all wfTuple) (parentBuffers sc))"

definition lastList :: "'v option \<Rightarrow> 'v list" where
  "lastList lastV = (case lastV of None \<Rightarrow> [] | Some l \<Rightarrow> [l])"

definition streamInv :: "('v::linorder, 'w) sequenceChunker \<Rightarrow> 'v option \<Rightarrow> bool" where
  "streamInv ch lastV =
     (chunkerInv ch \<and> sorted_wrt (<) (buffer ch) \<and>
      (\<forall>x\<in>set (buffer ch). \<exists>l. lastV = Some l \<and> x \<le> l))"

text \<open>
  A boundary function for concrete runs: a leaf is sealed at two items, and the
  level above is sealed with it when that level already holds a chunk.
\<close>

definition everyTwo :: "nat list \<Rightarrow> nat metaTuple list list \<Rightarrow> nat" where
  "everyTwo cur ps =
     (if length cur < 2 then 0
      else if ps = [] then 1
      else if length (hd ps) \<ge> 1 then 2 else 1)"

subsection \<open>Diff\<close>

text \<open>
  Modelled from the spec: the change record \<^verbatim>\<open>ValueChanged\<close> (declared outside the
  sources), \<open>{key, old value or absent, new value or absent}\<close>. In a set an item is
  its own key: a removed item has an old value only, an added item a new value only.
\<close>

record 'v ValueChanged =
  Key :: 'v
  OldValue :: "'v option"
  NewValue :: "'v option"

definition removed :: "'v \<Rightarrow> 'v ValueChanged" where
  "removed v = \<lparr>Key = v, OldValue = Some v, NewValue = None\<rparr>"

definition added :: "'v \<Rightarrow> 'v ValueChanged" where
  "added v = \<lparr>Key = v, OldValue = None, NewValue = Some v\<rparr>"

text \<open>
  Modelled from the spec: the left-to-right walk. Both streams of items are walked
  in lock-step, in key order; a change is emitted as soon as the two current items
  differ, and the cursor that lags behind is advanced. The comparison is by ordering
  key only.
\<close>

fun leftRight :: "'v::linorder list \<Rightarrow> 'v list \<Rightarrow> 'v ValueChanged list" where
  "leftRight [] ys = map added ys"
| "leftRight (x # xs) [] = map removed (x # xs)"
| "leftRight (x # xs) (y # ys) =
     (if x = y then leftRight xs ys
      else if x < y then removed x # leftRight xs (y # ys)
      else added y # leftRight (x # xs) ys)"

text \<open>
  Modelled from the spec: \<^verbatim>\<open>orderedSequenceDiffLeftRight\<close> (not among the sources)
  walks the leaf-level cursors of the two trees, each from its first item. The
  result lists the changes sent to the channel; no cancellation is signalled.
\<close>

definition orderedSequenceDiffLeftRight ::
  "'v::linorder sequence \<Rightarrow> 'v sequence \<Rightarrow> panic + 'v ValueChanged list" where
  "orderedSequenceDiffLeftRight last' cur =
     (case iter (\<lambda>v. False) (newCursorAtIndex last' 0) of
        Inl p \<Rightarrow> Inl p
      | Inr xs \<Rightarrow>
          (case iter (\<lambda>v. False) (newCursorAtIndex cur 0) of
             Inl p \<Rightarrow> Inl p
           | Inr ys \<Rightarrow> Inr (leftRight xs ys)))"

text \<open>The items of a row of subtrees, and a measure of the work left in them.\<close>

definition subtreeItems :: "'v sequence list \<Rightarrow> 'v list" where
  "subtreeItems xs = concat (map items xs)"

fun weight :: "'v sequence \<Rightarrow> nat" and weightTuple :: "'v metaTuple \<Rightarrow> nat" where
  "weight (Leaf vs) = Suc (length vs)"
| "weight (Meta ts) = Suc (sum_list (map weightTuple ts))"
| "weightTuple (MetaTuple c k n) = weight c"

lemma weight_pos [simp]: "0 < weight s"
  by (cases s) simp_all

lemma weight_child [simp]: "weight (child t) = weightTuple t"
  by (cases t) simp

lemma sum_weight_children [simp]:
  "sum_list (map (weight \<circ> child) ts) = sum_list (map weightTuple ts)"
  by (induction ts) simp_all

text \<open>
  Modelled from the spec: the top-down comparison, over the subtrees of the old
  tree and of the new tree that are still to be compared, in key order. Two
  subtrees with the same hash are skipped entirely; the hash of a node names its
  content uniquely, so two nodes have the same hash exactly when they are equal.
  Otherwise the comparison descends into both, and at the leaves compares item by
  item, by ordering key. With a budget (the hybrid algorithm) each step costs one
  unit, and when the budget is used up the rest is left to the left-to-right walk;
  without one (the top-down algorithm) the comparison runs to the end.
\<close>

function diffSubtrees ::
  "nat option \<Rightarrow> 'v::linorder sequence list \<Rightarrow> 'v sequence list \<Rightarrow> 'v ValueChanged list" where
  "diffSubtrees budget xs ys =
     (if budget = Some 0 then leftRight (subtreeItems xs) (subtreeItems ys)
      else
        let budget' = map_option (\<lambda>n. n - 1) budget in
        case xs of
          [] \<Rightarrow> map added (subtreeItems ys)
        | x # xs' \<Rightarrow>
            (case ys of
               [] \<Rightarrow> map removed (subtreeItems xs)
             | y # ys' \<Rightarrow>
                 if x = y then diffSubtrees budget' xs' ys'
                 else
                   (case x of
                      Meta ts \<Rightarrow>
                        (case y of
                           Meta us \<Rightarrow> diffSubtrees budget' (map child ts @ xs') (map child us @ ys')
                         | Leaf bs \<Rightarrow> diffSubtrees budget' (map child ts @ xs') ys)
                    | Leaf as \<Rightarrow>
                        (case y of
                           Meta us \<Rightarrow> diffSubtrees budget' xs (map child us @ ys')
                         | Leaf bs \<Rightarrow>
                             (case as of
                                [] \<Rightarrow> diffSubtrees budget' xs' ys
                              | a # as' \<Rightarrow>
                                  (case bs of
                                     [] \<Rightarrow> diffSubtrees budget' xs ys'
                                   | b # bs' \<Rightarrow>
                                       if a = b then
                                         diffSubtrees budget' (Leaf as' # xs') (Leaf bs' # ys')
                                       else if a < b then
                                         removed a # diffSubtrees budget' (Leaf as' # xs') ys
                                       else
                                         added b # diffSubtrees budget' xs (Leaf bs' # ys')))))))"
  by pat_completeness auto
termination
  by (relation "measure (\<lambda>(b, xs, ys). sum_list (map weight xs) + sum_list (map weight ys))")
     auto

declare diffSubtrees.simps [simp del]

text \<open>
  Modelled from the spec: \<^verbatim>\<open>orderedSequenceDiffTopDown\<close> (not among the sources),
  the top-down algorithm on the two roots.
\<close>

definition orderedSequenceDiffTopDown ::
  "'v::linorder sequence \<Rightarrow> 'v sequence \<Rightarrow> panic + 'v ValueChanged list" where
  "orderedSequenceDiffTopDown last' cur = Inr (diffSubtrees None [last'] [cur])"

text \<open>
  Modelled from the spec: \<^verbatim>\<open>orderedSequenceDiffBest\<close> (not among the sources), the
  hybrid algorithm: subtree skipping as top-down within the bound \<open>lookahead\<close>, then
  left to right.
\<close>

definition orderedSequenceDiffBest ::
  "nat \<Rightarrow> 'v::linorder sequence \<Rightarrow> 'v sequence \<Rightarrow> panic + 'v ValueChanged list" where
  "orderedSequenceDiffBest lookahead last' cur =
     Inr (diffSubtrees (Some lookahead) [last'] [cur])"

text \<open>
  \<^verbatim>\<open>Set.Equals\<close> compares the hashes of the two sets, which are the hashes of
  their sequences. Modelled from the spec: the hash names the content uniquely, so
  the hashes are equal exactly when the sequences are.
\<close>

definition Equals :: "'v Set \<Rightarrow> 'v Set \<Rightarrow> bool" where
  "Equals s other = (seq s = seq other)"

text \<open>
  \<^verbatim>\<open>Set.Diff\<close>, \<^verbatim>\<open>Set.DiffHybrid\<close> and \<^verbatim>\<open>Set.DiffLeftRight\<close>, as in set.go: nothing
  is sent when the sets are equal, otherwise the algorithm runs from \<open>last\<close> to
  \<open>s\<close>. The result lists the change records sent to \<^verbatim>\<open>changes\<close>.
\<close>

definition Diff :: "'v::linorder Set \<Rightarrow> 'v Set \<Rightarrow> panic + 'v ValueChanged list" where
  "Diff s last' =
     (if Equals s last' then Inr [] else orderedSequenceDiffTopDown (seq last') (seq s))"

definition DiffHybrid ::
  "nat \<Rightarrow> 'v::linorder Set \<Rightarrow> 'v Set \<Rightarrow> panic + 'v ValueChanged list" where
  "DiffHybrid lookahead s last' =
     (if Equals s last' then Inr [] else orderedSequenceDiffBest lookahead (seq last') (seq s))"

definition DiffLeftRight :: "'v::linorder Set \<Rightarrow> 'v Set \<Rightarrow> panic + 'v ValueChanged list" where
  "DiffLeftRight s last' =
     (if Equals s last' then Inr [] else orderedSequenceDiffLeftRight (seq last') (seq s))"

text \<open>
  The change records between two sets of items: a removal for every item of the
  old set that the new one lacks, an addition for every item only the new one has.
\<close>

definition changes :: "'v set \<Rightarrow> 'v set \<Rightarrow> 'v ValueChanged set" where
  "changes A B = removed ` (A - B) \<union> added ` (B - A)"

text \<open>The set that \<^verbatim>\<open>NewSet\<close> builds from a list of numbers, for concrete runs.\<close>

definition exampleSet :: "nat list \<Rightarrow> nat Set" where
  "exampleSet vs =
     (case NewSet everyTwo (None :: unit option) vs of
        Inr s \<Rightarrow> s
      | Inl p \<Rightarrow> newSet (Leaf []))"


section \<open>Properties of the chunk store\<close>

subsection \<open>Commit\<close>

lemma Commit_result:
  "Commit cs new last' = Inr (ok, cs') \<Longrightarrow>
     ok \<and> root cs' = Some new \<and>
     (root cs \<noteq> Some new \<longrightarrow> persistedRoot cs' = Inr new)"
  by (cases "local cs")
     (auto simp: Commit_def persistedRoot_def Rebase_def getLocalNameFile_def
                 nomsHashToCID_def Let_def
           split: if_splits sum.splits)

lemma Commit_panics:
  "(\<exists>p. Commit cs new last' = Inl p) \<longleftrightarrow>
     root cs \<noteq> Some new \<and>
     ((local cs \<and> writeFails (nameFiles cs) NomsLocal) \<or> writeFails (nameFiles cs) Noms)"
  by (cases "local cs")
     (auto simp: Commit_def getLocalNameFile_def Let_def split: if_splits sum.splits)

lemma Commit_ignores_last: "Commit cs new last' = Commit cs new other"
  by (simp add: Commit_def)

lemmas example_defs =
  exampleStore_def exampleNode_def rootFileOf_def exampleHashOf_def nomsHashToCID_def

lemmas root_defs = Commit_def persistedRoot_def Rebase_def getLocalNameFile_def Let_def

text \<open>
  C1, as stated, fails. A local store whose persisted and cached root is 1 is
  asked to \<^verbatim>\<open>Commit(2, 3)\<close>: the persisted root 1 is neither the expected root 3 nor
  the new root 2, and \<^verbatim>\<open>Commit\<close> returns true and has overwritten both root files
  with 2.
\<close>

theorem Commit_diverged_counterexample:
  "persistedRoot (exampleStore True (Some 1) (rootFileOf 1) []) = Inr 1
   \<and> (1::hash) \<noteq> 3 \<and> (1::hash) \<noteq> 2
   \<and> Commit (exampleStore True (Some 1) (rootFileOf 1) []) 2 3
       = Inr (True, exampleStore True (Some 2) (rootFileOf 2) [])
   \<and> persistedRoot (exampleStore True (Some 2) (rootFileOf 2) []) = Inr 2"
  by (simp add: example_defs root_defs)

text \<open>
  C1, amended: \<^verbatim>\<open>Commit(new, old)\<close> never looks at \<open>old\<close> and reports no conflict.
  Whenever it returns, it returns true with the cached root equal to \<open>new\<close>, and
  unless the cached root was \<open>new\<close> already it has overwritten the persisted root
  with \<open>new\<close>, whatever that root was. It fails only by panicking on a root file
  that cannot be written.
\<close>

theorem Commit_overwrites:
  "Commit cs new last' = Commit cs new other
   \<and> (Commit cs new last' = Inr (ok, cs') \<longrightarrow>
        ok \<and> root cs' = Some new \<and>
        (root cs \<noteq> Some new \<longrightarrow> persistedRoot cs' = Inr new))
   \<and> ((\<exists>p. Commit cs new last' = Inl p) \<longleftrightarrow>
        root cs \<noteq> Some new \<and>
        ((local cs \<and> writeFails (nameFiles cs) NomsLocal) \<or> writeFails (nameFiles cs) Noms))"
  using Commit_result[of cs new last' ok cs'] Commit_panics[of cs new last']
    Commit_ignores_last[of cs new last' other]
  by blast

theorem Commit_overwrites_witness:
  "Commit (exampleStore False (Some 4) (rootFileOf 4) []) 6 4
     = Inr (True, (exampleStore False (Some 6) (rootFileOf 4) [])
                    \<lparr>nameFiles := (nameFiles (exampleStore False (Some 6) (rootFileOf 4) []))
                                    \<lparr>nomsFile := rootFileOf 6\<rparr>\<rparr>)
   \<and> persistedRoot ((exampleStore False (Some 6) (rootFileOf 4) [])
                    \<lparr>nameFiles := (nameFiles (exampleStore False (Some 6) (rootFileOf 4) []))
                                    \<lparr>nomsFile := rootFileOf 6\<rparr>\<rparr>) = Inr 6"
proof -
  let ?cs = "exampleStore False (Some 4) (rootFileOf 4) []"
  let ?cs' = "(exampleStore False (Some 6) (rootFileOf 4) [])
                \<lparr>nameFiles := (nameFiles (exampleStore False (Some 6) (rootFileOf 4) []))
                                \<lparr>nomsFile := rootFileOf 6\<rparr>\<rparr>"
  have c: "Commit ?cs 6 4 = Inr (True, ?cs')"
    by (simp add: example_defs Commit_def getLocalNameFile_def Let_def)
  have r: "root ?cs \<noteq> Some 6" by (simp add: exampleStore_def)
  from Commit_overwrites[of ?cs 6 4 4 True ?cs'] c r show ?thesis by simp
qed

text \<open>
  C4, as stated, fails. A local store that has not loaded its root yet and whose
  root files hold 1 is asked to \<^verbatim>\<open>Commit(2, 2)\<close>: the call returns true and the
  persisted root is 2 afterwards, not 1.
\<close>

theorem Commit_same_root_counterexample:
  "persistedRoot (exampleStore True None (rootFileOf 1) []) = Inr 1
   \<and> Commit (exampleStore True None (rootFileOf 1) []) 2 2
       = Inr (True, exampleStore True (Some 2) (rootFileOf 2) [])
   \<and> persistedRoot (exampleStore True (Some 2) (rootFileOf 2) []) = Inr 2
   \<and> (1::hash) \<noteq> 2"
  by (simp add: example_defs root_defs)

text \<open>
  C4, amended: \<^verbatim>\<open>Commit(newRoot, expected)\<close> with \<open>newRoot\<close> equal to \<open>expected\<close>
  is a no-op success when the root is loaded in the cache and equals \<open>newRoot\<close>: it
  returns true and leaves the store, and so the persisted root pointer, unchanged.
  When the cache is not loaded or holds another root, a call that returns returns
  true and the persisted root is \<open>newRoot\<close> afterwards, whatever it was before.
\<close>

theorem Commit_cached_root_noop:
  "(root cs = Some newRoot \<longrightarrow> Commit cs newRoot newRoot = Inr (True, cs))
   \<and> (root cs \<noteq> Some newRoot \<and> Commit cs newRoot newRoot = Inr (ok, cs') \<longrightarrow>
        ok \<and> persistedRoot cs' = Inr newRoot)"
  using Commit_result[of cs newRoot newRoot ok cs']
  by (auto simp: Commit_def)

theorem Commit_cached_root_noop_witness:
  "Commit (exampleStore True (Some 2) (rootFileOf 1) []) 2 2
     = Inr (True, exampleStore True (Some 2) (rootFileOf 1) [])
   \<and> persistedRoot (exampleStore True (Some 2) (rootFileOf 2) []) = Inr 2"
proof -
  have r: "root (exampleStore True (Some 2) (rootFileOf 1) []) = Some 2"
    by (simp add: exampleStore_def)
  have n: "root (exampleStore True None (rootFileOf 1) []) \<noteq> Some 2"
    by (simp add: exampleStore_def)
  have c: "Commit (exampleStore True None (rootFileOf 1) []) 2 2
       = Inr (True, exampleStore True (Some 2) (rootFileOf 2) [])"
    by (simp add: example_defs root_defs)
  from Commit_cached_root_noop[of "exampleStore True (Some 2) (rootFileOf 1) []" 2]
       Commit_cached_root_noop[of "exampleStore True None (rootFileOf 1) []" 2 True
          "exampleStore True (Some 2) (rootFileOf 2) []"] r n c
  show ?thesis by simp
qed

subsection \<open>Get, Has and Put\<close>

lemma Put_node:
  "Put cs c = Inr cs' \<Longrightarrow>
     \<not> ioFails (node cs) (nomsHashToCID (Hash c)) \<and>
     cs' = cs\<lparr>node := (node cs)\<lparr>Blockstore :=
              (Blockstore (node cs))(nomsHashToCID (Hash c) \<mapsto> Data c)\<rparr>\<rparr>"
  by (auto simp: Put_def Let_def Blockstore_Put_def Blocks_AddBlock_def NewBlockWithCid_def
           split: if_splits sum.splits prod.splits)

lemma Put_Get:
  assumes "Put cs c = Inr cs'"
  shows "Get hashOf cs' (Hash c) = Inr (NewChunkWithHash (Hash c) (Data c))"
  using Put_node[OF assms]
  by (auto simp: Get_def Let_def Blockstore_Get_def Blocks_GetBlock_def NewBlockWithCid_def)

lemma Put_Has:
  assumes "Put cs c = Inr cs'"
  shows "Has hashOf cs' (Hash c) = Inr (local cs \<or> Data c \<noteq> [])"
  using Put_node[OF assms] Put_Get[OF assms, of hashOf]
  by (auto simp: Has_def Let_def Blockstore_Has_def IsEmpty_def NewChunkWithHash_def)

lemma Get_absent:
  "absent cs h \<Longrightarrow> \<not> ioFails (node cs) (nomsHashToCID h) \<Longrightarrow>
     Get hashOf cs h = Inr (EmptyChunk hashOf)"
  by (auto simp: absent_def Get_def Let_def Blockstore_Get_def Blocks_GetBlock_def)

lemma Get_panics:
  "Get hashOf cs h = Inl p \<longleftrightarrow> ioFails (node cs) (nomsHashToCID h) \<and> p = PanicError ErrIO"
  by (auto simp: Get_def Let_def Blockstore_Get_def Blocks_GetBlock_def split: option.splits)

lemma Has_absent:
  "absent cs h \<Longrightarrow> \<not> ioFails (node cs) (nomsHashToCID h) \<Longrightarrow> Has hashOf cs h = Inr False"
  by (auto simp: absent_def Has_def Get_def Let_def Blockstore_Has_def Blockstore_Get_def
        Blocks_GetBlock_def IsEmpty_def EmptyChunk_def NewChunk_def NewChunkWithHash_def)

lemma Put_absent:
  "Put cs c = Inr cs' \<Longrightarrow> Hash c \<noteq> h \<Longrightarrow> absent cs h \<Longrightarrow> absent cs' h"
  by (drule Put_node) (auto simp: absent_def nomsHashToCID_def)

lemma Put_ioFails:
  "Put cs c = Inr cs' \<Longrightarrow> ioFails (node cs') = ioFails (node cs)"
  by (drule Put_node) auto

lemma PutAll_absent:
  "PutAll cs cl = Inr cs' \<Longrightarrow> h \<notin> Hash ` set cl \<Longrightarrow> absent cs h \<Longrightarrow>
     absent cs' h \<and> ioFails (node cs') = ioFails (node cs)"
proof (induction cl arbitrary: cs)
  case Nil
  then show ?case by simp
next
  case (Cons c cl)
  from Cons.prems(1) obtain cs1 where p: "Put cs c = Inr cs1" and r: "PutAll cs1 cl = Inr cs'"
    by (auto split: sum.splits)
  from Cons.prems(2) have ne: "Hash c \<noteq> h" and ni: "h \<notin> Hash ` set cl" by auto
  from Put_absent[OF p ne Cons.prems(3)] have a1: "absent cs1 h" .
  from Cons.IH[OF r ni a1] Put_ioFails[OF p] show ?case by simp
qed

text \<open>
  C6, as stated, fails. A store that is not local answers \<^verbatim>\<open>Has\<close> through
  \<^verbatim>\<open>Get\<close> and \<^verbatim>\<open>IsEmpty\<close>: after \<^verbatim>\<open>Put(EmptyChunk)\<close>, \<^verbatim>\<open>Has\<close> of the empty chunk's
  hash is false.
\<close>

theorem Put_empty_chunk_counterexample:
  "Put (exampleStore False None NotExist []) (EmptyChunk exampleHashOf)
     = Inr (exampleStore False None NotExist [(0, [])])
   \<and> Hash (EmptyChunk exampleHashOf) = 0
   \<and> Has exampleHashOf (exampleStore False None NotExist [(0, [])]) 0 = Inr False"
  by (simp add: example_defs EmptyChunk_def NewChunk_def NewChunkWithHash_def Put_def Has_def
        Get_def Hash_def Data_def IsEmpty_def Let_def Blocks_AddBlock_def Blockstore_Put_def
        Blocks_GetBlock_def NewBlockWithCid_def)

text \<open>
  C6, amended: for every chunk \<open>c\<close>, after a \<^verbatim>\<open>Put(c)\<close> that returned,
  \<^verbatim>\<open>Get(c.Hash())\<close> returns a chunk whose bytes are \<open>c\<close>'s bytes, and
  \<^verbatim>\<open>Has(c.Hash())\<close> returns true in a local store, and in a store that is not local
  exactly when \<open>c\<close>'s bytes are not empty. For a hash that is absent from the store
  and was never \<^verbatim>\<open>Put\<close>, \<^verbatim>\<open>Has\<close> returns false (the backend reporting no I/O error
  on it).
\<close>

theorem Put_Get_Has:
  "(Put cs c = Inr cs' \<longrightarrow>
      Get hashOf cs' (Hash c) = Inr (NewChunkWithHash (Hash c) (Data c)) \<and>
      Data (NewChunkWithHash (Hash c) (Data c)) = Data c \<and>
      Has hashOf cs' (Hash c) = Inr (local cs \<or> Data c \<noteq> []))
   \<and> (absent cs h \<and> \<not> ioFails (node cs) (nomsHashToCID h) \<and>
        PutAll cs cl = Inr cs'' \<and> h \<notin> Hash ` set cl \<longrightarrow>
      Has hashOf cs'' h = Inr False)"
proof (intro conjI impI)
  assume p: "Put cs c = Inr cs'"
  show "Get hashOf cs' (Hash c) = Inr (NewChunkWithHash (Hash c) (Data c))"
    by (rule Put_Get[OF p])
  show "Data (NewChunkWithHash (Hash c) (Data c)) = Data c"
    by (simp add: Data_def NewChunkWithHash_def)
  show "Has hashOf cs' (Hash c) = Inr (local cs \<or> Data c \<noteq> [])"
    by (rule Put_Has[OF p])
next
  assume a: "absent cs h \<and> \<not> ioFails (node cs) (nomsHashToCID h) \<and>
        PutAll cs cl = Inr cs'' \<and> h \<notin> Hash ` set cl"
  then have "absent cs'' h \<and> ioFails (node cs'') = ioFails (node cs)"
    using PutAll_absent by blast
  with a show "Has hashOf cs'' h = Inr False" by (simp add: Has_absent)
qed

theorem Put_Get_Has_witness:
  "Get exampleHashOf (exampleStore True None NotExist [(7, [1, 2])]) 7
      = Inr (NewChunkWithHash 7 [1, 2])
   \<and> Has exampleHashOf (exampleStore True None NotExist [(7, [1, 2])]) 7 = Inr True
   \<and> Has exampleHashOf (exampleStore True None NotExist [(7, [1, 2])]) 9 = Inr False"
proof -
  let ?cs = "exampleStore True None NotExist []"
  let ?cs' = "exampleStore True None NotExist [(7, [1, 2])]"
  let ?c = "NewChunkWithHash 7 [1, 2]"
  have p: "Put ?cs ?c = Inr ?cs'"
    by (simp add: example_defs NewChunkWithHash_def Put_def Hash_def Data_def
          Let_def Blockstore_Put_def NewBlockWithCid_def)
  have pa: "PutAll ?cs [?c] = Inr ?cs'" using p by simp
  have ab: "absent ?cs 9 \<and> \<not> ioFails (node ?cs) (nomsHashToCID 9)"
    by (simp add: absent_def exampleStore_def exampleNode_def)
  have ni: "(9::hash) \<notin> Hash ` set [?c]" by (simp add: Hash_def NewChunkWithHash_def)
  have hd: "Hash ?c = 7" "Data ?c = [1, 2]" "local ?cs"
    by (simp_all add: Hash_def Data_def NewChunkWithHash_def exampleStore_def)
  from Put_Get_Has[of ?cs ?c ?cs' exampleHashOf 9 "[?c]" ?cs'] p pa ab ni hd
  show ?thesis by simp
qed

text \<open>
  C7: for every hash absent from the store, \<^verbatim>\<open>Get\<close> returns the empty-chunk
  sentinel and does not panic, unless the backend reports an I/O error for it; an
  I/O error other than not-found is the only thing that makes \<^verbatim>\<open>Get\<close> panic.
\<close>

theorem Get_absent_is_EmptyChunk:
  "(absent cs h \<and> \<not> ioFails (node cs) (nomsHashToCID h) \<longrightarrow>
      Get hashOf cs h = Inr (EmptyChunk hashOf) \<and> IsEmpty (EmptyChunk hashOf))
   \<and> (Get hashOf cs h = Inl p \<longleftrightarrow>
        ioFails (node cs) (nomsHashToCID h) \<and> p = PanicError ErrIO)"
  using Get_absent[of cs h hashOf] Get_panics[of hashOf cs h p]
  by (simp add: IsEmpty_def EmptyChunk_def NewChunk_def NewChunkWithHash_def)

theorem Get_absent_is_EmptyChunk_witness:
  "Get exampleHashOf (exampleStore False None NotExist []) 5 = Inr (EmptyChunk exampleHashOf)
   \<and> Get exampleHashOf (exampleStore True None NotExist []) 5 = Inr (EmptyChunk exampleHashOf)"
proof -
  have a: "absent (exampleStore b None NotExist []) 5
      \<and> \<not> ioFails (node (exampleStore b None NotExist [])) (nomsHashToCID 5)" for b
    by (simp add: absent_def exampleStore_def exampleNode_def)
  from Get_absent_is_EmptyChunk[of "exampleStore False None NotExist []" 5 exampleHashOf]
       Get_absent_is_EmptyChunk[of "exampleStore True None NotExist []" 5 exampleHashOf]
       a[of True] a[of False]
  show ?thesis by simp
qed

subsection \<open>HasMany\<close>

lemma HasMany_loop_misses:
  "HasMany_loop hashOf cs hs m = Inr M \<Longrightarrow>
     M = m \<union> {h \<in> set hs. Has hashOf cs h = Inr False}"
proof (induction hs arbitrary: m)
  case Nil
  then show ?case by simp
next
  case (Cons h hs)
  from Cons.prems obtain ok where ok: "Has hashOf cs h = Inr ok"
    and r: "HasMany_loop hashOf cs hs (if \<not> ok then insert h m else m) = Inr M"
    by (auto split: sum.splits)
  from Cons.IH[OF r] ok show ?case by (cases ok) auto
qed

lemma HasMany_local:
  "local cs \<Longrightarrow> HasMany hashOf cs hashes finished = Inr M \<Longrightarrow>
     M = {h \<in> set hashes. Has hashOf cs h = Inr False}"
  by (auto simp: HasMany_def dest: HasMany_loop_misses)

lemma HasMany_all_finished:
  "set finished = set hashes \<Longrightarrow> HasMany hashOf cs hashes finished = Inr M \<Longrightarrow>
     M = {h \<in> set hashes. Has hashOf cs h = Inr False}"
  by (auto simp: HasMany_def dest: HasMany_loop_misses split: if_splits)

text \<open>
  C5 holds in the local mode (\<open>HasMany_local\<close>) and would hold in the other mode if
  the goroutines were waited for (\<open>HasMany_all_finished\<close>). As the code is, a store
  that is not local and does not have hash 7 returns the empty set for the hash
  set {7} when it returns before its goroutine has run; the local store returns {7}.
\<close>

theorem HasMany_returns_before_goroutines:
  "Has exampleHashOf (exampleStore False None NotExist []) 7 = Inr False
   \<and> HasMany exampleHashOf (exampleStore False None NotExist []) [7] [] = Inr {}
   \<and> HasMany exampleHashOf (exampleStore True None NotExist []) [7] [] = Inr {7}"
  by (simp add: HasMany_def Has_def Get_def Let_def example_defs Blockstore_Has_def
        Blocks_GetBlock_def IsEmpty_def EmptyChunk_def NewChunk_def NewChunkWithHash_def)

section \<open>Properties of sets\<close>

subsection \<open>buildSetData\<close>


lemma buildSetData_loop_eq:
  "(case buildSetData_loop rest l acc of (u, l') \<Rightarrow> u @ [l']) = acc @ remdups_adj (l # rest)"
  by (induction rest arbitrary: l acc) auto

lemma buildSetData_eq: "buildSetData vs = remdups_adj (sort vs)"
proof (cases "sort vs")
  case Nil
  then have "vs = []" by (metis length_sort length_0_conv)
  then show ?thesis by (simp add: buildSetData_def)
next
  case (Cons v0 rest)
  then have "vs \<noteq> []" by auto
  with Cons buildSetData_loop_eq[of rest v0 "[]"] show ?thesis
    by (simp add: buildSetData_def)
qed

lemma strict_sorted_remdups_adj:
  "sorted xs \<Longrightarrow> sorted_wrt (<) (remdups_adj xs)"
proof (induction xs rule: remdups_adj.induct)
  case (3 x y xs)
  show ?case
  proof (cases "x = y")
    case True
    with 3 show ?thesis by simp
  next
    case False
    from "3.prems" have "x \<le> y" "\<forall>z\<in>set xs. y \<le> z" "sorted (y # xs)" by auto
    with False have "\<forall>z\<in>set (y # xs). x < z" by fastforce
    with False "3.IH"(2) \<open>sorted (y # xs)\<close> show ?thesis
      by (simp del: sorted_wrt.simps add: strict_sorted_simps remdups_adj_set)
  qed
qed simp_all

lemma buildSetData_sorted: "sorted_wrt (<) (buildSetData vs)"
  by (simp add: buildSetData_eq strict_sorted_remdups_adj)

lemma buildSetData_set: "set (buildSetData vs) = set vs"
  by (simp add: buildSetData_eq remdups_adj_set)

lemma buildSetData_sorted_list_of_set: "buildSetData vs = sorted_list_of_set (set vs)"
proof -
  have "sorted_wrt (<) (buildSetData vs)" by (rule buildSetData_sorted)
  then show ?thesis
    by (metis buildSetData_set sorted_list_of_set.idem_if_sorted_distinct strict_sorted_iff)
qed


subsection \<open>Counts, seeking and iteration\<close>

lemma wfTuple_numLeavesOf: "wfTuple t \<Longrightarrow> numLeavesOf t = length (tupleItems t)"
  by (cases t) simp

lemma sum_numLeavesOf:
  "list_all wfTuple ts \<Longrightarrow> sum_list (map numLeavesOf ts) = length (concat (map tupleItems ts))"
  by (induction ts) (simp_all add: wfTuple_numLeavesOf)

lemma numLeaves_items: "wfSeq s \<Longrightarrow> numLeaves s = length (items s)"
  by (cases s) (simp_all add: sum_numLeavesOf)

lemma seekByIndex_items:
  fixes s :: "'v sequence" and ts :: "'v metaTuple list"
  shows "wfSeq s \<Longrightarrow> seekByIndex s i = (if i < length (items s) then Some (items s ! i) else None)"
  and "list_all wfTuple ts \<Longrightarrow>
     seekChildren ts i =
       (if i < length (concat (map tupleItems ts)) then Some (concat (map tupleItems ts) ! i)
        else None)"
proof (induction s i and ts i rule: seekByIndex_seekChildren.induct)
  case (4 c k n ts i)
  then show ?case by (auto simp: nth_append)
qed simp_all

lemma current_items:
  "wfSeq s \<Longrightarrow> i < length (items s) \<Longrightarrow>
     current \<lparr>cursorSeq = s, cursorIdx = i\<rparr> = Inr (items s ! i)"
  by (simp add: current_def seekByIndex_items)

lemma iter_all_drop:
  "wfSeq s \<Longrightarrow> iter (\<lambda>v. False) \<lparr>cursorSeq = s, cursorIdx = i\<rparr> = Inr (drop i (items s))"
proof (induction "length (items s) - i" arbitrary: i)
  case 0
  then show ?case by (subst iter.simps) (simp add: valid_def numLeaves_items)
next
  case (Suc d)
  then have lt: "i < length (items s)" by simp
  from Suc(1)[of "Suc i"] Suc(2,3)
  have ih: "iter (\<lambda>v. False) \<lparr>cursorSeq = s, cursorIdx = Suc i\<rparr> = Inr (drop (Suc i) (items s))"
    by simp
  have v: "valid \<lparr>cursorSeq = s, cursorIdx = i\<rparr>"
    using lt Suc(3) by (simp add: valid_def numLeaves_items)
  have a: "advance \<lparr>cursorSeq = s, cursorIdx = i\<rparr> = \<lparr>cursorSeq = s, cursorIdx = Suc i\<rparr>"
    using v by (simp add: advance_def)
  show ?case
    using v ih lt
    by (subst iter.simps) (simp add: a current_items[OF Suc(3) lt] Cons_nth_drop_Suc)
qed

lemma IterAll_items: "wfSeq (seq s) \<Longrightarrow> IterAll s = Inr (items (seq s))"
  by (simp add: IterAll_def newCursorAtIndex_def iter_all_drop)

lemma At_items:
  "wfSeq (seq s) \<Longrightarrow>
     At s i = (if i \<ge> Len s then Inl (OutOfBounds i (Len s)) else Inr (items (seq s) ! i))"
  by (simp add: At_def Len_def newCursorAtIndex_def numLeaves_items current_items)


subsection \<open>The chunker keeps the items\<close>

lemma bufItems_simps [simp]:
  "bufItems [] = []"
  "bufItems (b # bs) = bufItems bs @ concat (map tupleItems b)"
  by (simp_all add: bufItems_def)

lemma makeSetLeafChunkFn_loop_sorted:
  "sorted_wrt (<) ((case lastV of None \<Rightarrow> [] | Some l \<Rightarrow> [l]) @ its) \<Longrightarrow>
     makeSetLeafChunkFn_loop its lastV acc = Inr (acc @ its)"
proof (induction its arbitrary: lastV acc)
  case Nil
  then show ?case by simp
next
  case (Cons v rest)
  from Cons.prems have s: "sorted_wrt (<) (v # rest)" by (cases lastV) auto
  from Cons.prems have l: "\<And>l. lastV = Some l \<Longrightarrow> l < v" by auto
  from Cons.IH[of "Some v" "acc @ [v]"] s l show ?case
    by (cases lastV) auto
qed

lemma makeSetLeafChunkFn_sorted:
  "sorted_wrt (<) its \<Longrightarrow>
     \<exists>k. makeSetLeafChunkFn 0 its = Inr (newSet (Leaf its), k, length its)"
  using makeSetLeafChunkFn_loop_sorted[of None its "[]"]
  by (simp add: makeSetLeafChunkFn_def)

lemma toTuple_leaf:
  "wfTuple (toTuple (newSet (Leaf its), k, length its)) \<and>
   tupleItems (toTuple (newSet (Leaf its), k, length its)) = its"
  by (simp add: toTuple_def newSet_def)

lemma toTuple_meta:
  "newOrderedMetaSequenceChunkFn level ts = Inr c \<Longrightarrow> list_all wfTuple ts \<Longrightarrow>
     wfTuple (toTuple c) \<and> tupleItems (toTuple c) = concat (map tupleItems ts) \<and>
     seq (fst c) = Meta ts"
  by (auto simp: newOrderedMetaSequenceChunkFn_def toTuple_def newSet_def sum_numLeavesOf)

lemma handleChunkBoundary_ok:
  "wfTuple t \<Longrightarrow> list_all (list_all wfTuple) ps \<Longrightarrow>
     \<exists>ps'. handleChunkBoundary newOrderedMetaSequenceChunkFn level d t ps = Inr ps' \<and>
           list_all (list_all wfTuple) ps' \<and> ps' \<noteq> [] \<and>
           bufItems ps' = bufItems ps @ tupleItems t"
proof (induction d arbitrary: t ps level)
  case 0
  then show ?case by (cases ps) auto
next
  case (Suc d)
  show ?case
  proof (cases ps)
    case Nil
    obtain c where c: "newOrderedMetaSequenceChunkFn level [t] = Inr c"
      by (simp add: newOrderedMetaSequenceChunkFn_def)
    from toTuple_meta[OF c] Suc.prems(1)
    have w: "wfTuple (toTuple c)" and i: "tupleItems (toTuple c) = tupleItems t" by simp_all
    from Suc.IH[OF w, of "[]" "Suc level"] obtain ps' where
      "handleChunkBoundary newOrderedMetaSequenceChunkFn (Suc level) d (toTuple c) [] = Inr ps'"
      "list_all (list_all wfTuple) ps'" "bufItems ps' = tupleItems (toTuple c)"
      by auto
    with Nil c i show ?thesis by simp
  next
    case (Cons b bs)
    obtain c where c: "newOrderedMetaSequenceChunkFn level (b @ [t]) = Inr c"
      by (simp add: newOrderedMetaSequenceChunkFn_def)
    from Suc.prems Cons have wb: "list_all wfTuple (b @ [t])" and wbs: "list_all (list_all wfTuple) bs"
      by simp_all
    from toTuple_meta[OF c wb]
    have w: "wfTuple (toTuple c)"
      and i: "tupleItems (toTuple c) = concat (map tupleItems b) @ tupleItems t" by simp_all
    from Suc.IH[OF w wbs, of "Suc level"] obtain ps' where
      "handleChunkBoundary newOrderedMetaSequenceChunkFn (Suc level) d (toTuple c) bs = Inr ps'"
      "list_all (list_all wfTuple) ps'" "bufItems ps' = bufItems bs @ tupleItems (toTuple c)"
      by auto
    with Cons c i show ?thesis by simp
  qed
qed

lemma doneParents_top:
  "list_all wfTuple pending \<Longrightarrow>
     \<exists>s. doneParents newOrderedMetaSequenceChunkFn level pending [] = Inr s \<and>
         wfSeq s \<and> items s = concat (map tupleItems pending)"
proof (cases pending)
  case Nil
  then show ?thesis by simp
next
  case (Cons t rest)
  assume w: "list_all wfTuple pending"
  show ?thesis
  proof (cases rest)
    case Nil
    with Cons w show ?thesis by (cases t) simp
  next
    case (Cons t' rest')
    with \<open>pending = t # rest\<close> w show ?thesis
      by (simp add: newOrderedMetaSequenceChunkFn_def newSet_def)
  qed
qed

lemma doneParents_ok:
  "list_all wfTuple pending \<Longrightarrow> list_all (list_all wfTuple) ps \<Longrightarrow>
     \<exists>s. doneParents newOrderedMetaSequenceChunkFn level pending ps = Inr s \<and>
         wfSeq s \<and> items s = bufItems ps @ concat (map tupleItems pending)"
proof (induction ps arbitrary: level pending)
  case Nil
  then show ?case using doneParents_top[of pending level] by simp
next
  case (Cons b bs)
  let ?ts = "b @ pending"
  from Cons.prems have wts: "list_all wfTuple ?ts" and wbs: "list_all (list_all wfTuple) bs"
    by simp_all
  show ?case
  proof (cases "?ts = []")
    case True
    with Cons.IH[of "[]" "Suc level"] wbs show ?thesis by simp
  next
    case False
    show ?thesis
    proof (cases "bs = []")
      case True
      with False doneParents_top[OF wts, of level] show ?thesis by (simp add: Let_def)
    next
      case bs: False
      obtain c where c: "newOrderedMetaSequenceChunkFn level ?ts = Inr c"
        by (simp add: newOrderedMetaSequenceChunkFn_def)
      from toTuple_meta[OF c wts]
      have w: "list_all wfTuple [toTuple c]"
        and i: "tupleItems (toTuple c) = concat (map tupleItems ?ts)" by simp_all
      from False bs c
      have "doneParents newOrderedMetaSequenceChunkFn level pending (b # bs) =
            doneParents newOrderedMetaSequenceChunkFn (Suc level) [toTuple c] bs"
        by (auto simp: Let_def)
      with Cons.IH[OF w wbs, of "Suc level"] i show ?thesis by simp
    qed
  qed
qed

lemma Append_ok:
  assumes inv: "chunkerInv sc" and srt: "sorted_wrt (<) (buffer sc @ [v])"
  shows "\<exists>sc'. Append sc v = Inr sc' \<and> chunkerInv sc' \<and>
           chunkerItems sc' = chunkerItems sc @ [v] \<and>
           (buffer sc' = [] \<or> buffer sc' = buffer sc @ [v])"
proof (cases "hashValueBytes sc (buffer sc @ [v]) (parentBuffers sc) = 0")
  case True
  with inv show ?thesis
    by (simp add: Append_def Let_def chunkerInv_def chunkerItems_def)
next
  case False
  let ?cur = "buffer sc @ [v]"
  from makeSetLeafChunkFn_sorted[OF srt] obtain k where
    mk: "makeSetLeafChunkFn 0 ?cur = Inr (newSet (Leaf ?cur), k, length ?cur)" by blast
  let ?t = "toTuple (newSet (Leaf ?cur), k, length ?cur)"
  from toTuple_leaf[of ?cur k] have wt: "wfTuple ?t" and it: "tupleItems ?t = ?cur" by simp_all
  from inv have wps: "list_all (list_all wfTuple) (parentBuffers sc)" by (simp add: chunkerInv_def)
  from handleChunkBoundary_ok[OF wt wps, of 1 "hashValueBytes sc ?cur (parentBuffers sc) - 1"]
  obtain ps' where
    h: "handleChunkBoundary newOrderedMetaSequenceChunkFn 1
          (hashValueBytes sc ?cur (parentBuffers sc) - 1) ?t (parentBuffers sc) = Inr ps'"
    and wps': "list_all (list_all wfTuple) ps'"
    and ips': "bufItems ps' = bufItems (parentBuffers sc) @ tupleItems ?t" by blast
  from False inv mk h have "Append sc v = Inr (sc\<lparr>buffer := [], parentBuffers := ps'\<rparr>)"
    by (simp add: Append_def Let_def chunkerInv_def)
  with inv wps' ips' it show ?thesis
    by (simp add: chunkerInv_def chunkerItems_def)
qed

lemma appendAll_ok:
  "chunkerInv sc \<Longrightarrow> sorted_wrt (<) (buffer sc @ vs) \<Longrightarrow>
     \<exists>sc'. appendAll sc vs = Inr sc' \<and> chunkerInv sc' \<and>
           chunkerItems sc' = chunkerItems sc @ vs \<and> sorted_wrt (<) (buffer sc')"
proof (induction vs arbitrary: sc)
  case Nil
  then show ?case by simp
next
  case (Cons v vs)
  from Cons.prems(2) have s1: "sorted_wrt (<) (buffer sc @ [v])"
    by (simp add: sorted_wrt_append)
  from Append_ok[OF Cons.prems(1) s1] obtain sc1 where
    a: "Append sc v = Inr sc1" and i1: "chunkerInv sc1"
    and it: "chunkerItems sc1 = chunkerItems sc @ [v]"
    and cur: "buffer sc1 = [] \<or> buffer sc1 = buffer sc @ [v]" by blast
  from cur Cons.prems(2) have s2: "sorted_wrt (<) (buffer sc1 @ vs)"
    by (auto simp: sorted_wrt_append)
  from Cons.IH[OF i1 s2] a it show ?case by auto
qed

lemma Done_ok:
  assumes inv: "chunkerInv sc" and srt: "sorted_wrt (<) (buffer sc)"
  shows "\<exists>s. Done sc = Inr s \<and> wfSeq s \<and> items s = chunkerItems sc"
proof -
  from makeSetLeafChunkFn_sorted[OF srt] obtain k where
    mk: "makeSetLeafChunkFn 0 (buffer sc) = Inr (newSet (Leaf (buffer sc)), k, length (buffer sc))"
    by blast
  let ?t = "toTuple (newSet (Leaf (buffer sc)), k, length (buffer sc))"
  from toTuple_leaf[of "buffer sc" k]
  have wt: "list_all wfTuple [?t]" and it: "tupleItems ?t = buffer sc" by simp_all
  from inv have wps: "list_all (list_all wfTuple) (parentBuffers sc)" by (simp add: chunkerInv_def)
  show ?thesis
  proof (cases "parentBuffers sc = []")
    case True
    with inv mk show ?thesis
      by (simp add: Done_def chunkerInv_def chunkerItems_def newSet_def)
  next
    case False
    show ?thesis
    proof (cases "buffer sc = []")
      case True
      with False inv doneParents_ok[of "[]" "parentBuffers sc" 1] wps show ?thesis
        by (simp add: Done_def chunkerInv_def chunkerItems_def)
    next
      case c: False
      with False inv mk doneParents_ok[OF wt wps, of 1] it show ?thesis
        by (simp add: Done_def chunkerInv_def chunkerItems_def)
    qed
  qed
qed

lemma newEmptySetSequenceChunker_inv:
  "chunkerInv (newEmptySetSequenceChunker hvb w) \<and>
   buffer (newEmptySetSequenceChunker hvb w) = [] \<and>
   chunkerItems (newEmptySetSequenceChunker hvb w) = []"
  by (simp add: chunkerInv_def chunkerItems_def newEmptySetSequenceChunker_def
        newEmptySequenceChunker_def)

lemma NewSet_ok:
  "\<exists>s. NewSet hvb w vs = Inr s \<and> wfSeq (seq s) \<and> items (seq s) = buildSetData vs"
proof -
  let ?ch = "newEmptySetSequenceChunker hvb w"
  from newEmptySetSequenceChunker_inv[of hvb w]
  have inv: "chunkerInv ?ch" and cur: "buffer ?ch = []" and its: "chunkerItems ?ch = []"
    by simp_all
  from cur buildSetData_sorted[of vs] have s: "sorted_wrt (<) (buffer ?ch @ buildSetData vs)"
    by simp
  from appendAll_ok[OF inv s] its obtain ch' where
    a: "appendAll ?ch (buildSetData vs) = Inr ch'" and i': "chunkerInv ch'"
    and it': "chunkerItems ch' = buildSetData vs" and s': "sorted_wrt (<) (buffer ch')"
    by auto
  from Done_ok[OF i' s'] it' obtain sq where
    "Done ch' = Inr sq" "wfSeq sq" "items sq = buildSetData vs" by auto
  with a show ?thesis by (simp add: NewSet_def Let_def newSet_def)
qed



subsection \<open>The streaming constructor\<close>

lemma streamInv_Append:
  assumes j: "streamInv ch lastV" and lt: "\<And>l. lastV = Some l \<Longrightarrow> l < v"
  shows "\<exists>ch'. Append ch v = Inr ch' \<and> streamInv ch' (Some v) \<and>
           chunkerItems ch' = chunkerItems ch @ [v]"
proof -
  from j lt have s: "sorted_wrt (<) (buffer ch @ [v])"
    by (fastforce simp: streamInv_def sorted_wrt_append)
  from j have inv: "chunkerInv ch" by (simp add: streamInv_def)
  from Append_ok[OF inv s] obtain ch' where
    a: "Append ch v = Inr ch'" and i: "chunkerInv ch'"
    and it: "chunkerItems ch' = chunkerItems ch @ [v]"
    and c: "buffer ch' = [] \<or> buffer ch' = buffer ch @ [v]" by blast
  from c s j lt have "sorted_wrt (<) (buffer ch') \<and> (\<forall>x\<in>set (buffer ch'). x \<le> v)"
    by (fastforce simp: streamInv_def sorted_wrt_append)
  with a i it show ?thesis by (auto simp: streamInv_def)
qed

lemma readSetInput_loop_bad:
  "streamInv ch lastV \<Longrightarrow>
     None \<in> set vs \<or> \<not> sorted_wrt (<) (lastList lastV @ map the vs) \<Longrightarrow>
     readSetInput_loop vs lastV ch = Inl PanicIfTrue \<or>
     readSetInput_loop vs lastV ch = Inl PanicIfFalse"
proof (induction vs arbitrary: ch lastV)
  case Nil
  then show ?case
    by (cases lastV) (auto simp: lastList_def)
next
  case (Cons x rest)
  show ?case
  proof (cases x)
    case None
    then show ?thesis by simp
  next
    case (Some v)
    show ?thesis
    proof (cases "\<exists>l. lastV = Some l \<and> \<not> l < v")
      case True
      with Some show ?thesis by auto
    next
      case False
      then have lt: "\<And>l. lastV = Some l \<Longrightarrow> l < v" by auto
      from streamInv_Append[OF Cons.prems(1) lt] obtain ch' where
        a: "Append ch v = Inr ch'" and j': "streamInv ch' (Some v)" by blast
      from Cons.prems(2) Some lt
      have bad': "None \<in> set rest \<or> \<not> sorted_wrt (<) (lastList (Some v) @ map the rest)"
        by (cases lastV) (auto simp: lastList_def intro: less_trans)
      from Cons.IH[OF j' bad'] a Some False show ?thesis
        by (cases lastV) auto
    qed
  qed
qed

lemma readSetInput_loop_good:
  "streamInv ch lastV \<Longrightarrow> sorted_wrt (<) (lastList lastV @ vs) \<Longrightarrow>
     \<exists>ch'. readSetInput_loop (map Some vs) lastV ch = Inr ch' \<and> chunkerInv ch' \<and>
           sorted_wrt (<) (buffer ch') \<and> chunkerItems ch' = chunkerItems ch @ vs"
proof (induction vs arbitrary: ch lastV)
  case Nil
  then show ?case by (simp add: streamInv_def)
next
  case (Cons v rest)
  from Cons.prems(2) have lt: "\<And>l. lastV = Some l \<Longrightarrow> l < v"
    by (auto simp: lastList_def)
  from streamInv_Append[OF Cons.prems(1) lt] obtain ch' where
    a: "Append ch v = Inr ch'" and j': "streamInv ch' (Some v)"
    and it: "chunkerItems ch' = chunkerItems ch @ [v]" by blast
  from Cons.prems(2) have s': "sorted_wrt (<) (lastList (Some v) @ rest)"
    by (cases lastV) (auto simp: lastList_def)
  from Cons.IH[OF j' s'] a it lt show ?case
    by (cases lastV) auto
qed

lemma streamInv_empty: "streamInv (newEmptySetSequenceChunker hvb w) None"
  using newEmptySetSequenceChunker_inv[of hvb w] by (simp add: streamInv_def)

lemma NewStreamingSet_bad:
  assumes "None \<in> set vChan \<or> \<not> sorted_wrt (<) (map the vChan)"
  shows "NewStreamingSet hvb (Some w) vChan = Inl PanicIfTrue \<or>
         NewStreamingSet hvb (Some w) vChan = Inl PanicIfFalse"
  using readSetInput_loop_bad[OF streamInv_empty, of vChan hvb "Some w"] assms
  by (auto simp: NewStreamingSet_def newStreamingSet_def readSetInput_def Let_def lastList_def)

lemma NewStreamingSet_good:
  assumes "sorted_wrt (<) vs"
  shows "\<exists>s. NewStreamingSet hvb (Some w) (map Some vs) = Inr s \<and> wfSeq (seq s) \<and>
             items (seq s) = vs"
proof -
  from readSetInput_loop_good[OF streamInv_empty, of vs hvb "Some w"] assms
    newEmptySetSequenceChunker_inv[of hvb "Some w"]
  obtain ch' where l: "readSetInput_loop (map Some vs) None (newEmptySetSequenceChunker hvb (Some w)) = Inr ch'"
    and i: "chunkerInv ch'" and s: "sorted_wrt (<) (buffer ch')" and it: "chunkerItems ch' = vs"
    by (auto simp: lastList_def)
  from Done_ok[OF i s] it obtain sq where "Done ch' = Inr sq" "wfSeq sq" "items sq = vs" by auto
  with l show ?thesis
    by (simp add: NewStreamingSet_def newStreamingSet_def readSetInput_def Let_def newSet_def)
qed



subsection \<open>The claims about sets\<close>

lemma NewSet_setInvariant: "NewSet hvb w vs = Inr s \<Longrightarrow> setInvariant s"
  using NewSet_ok[of hvb w vs] buildSetData_sorted[of vs]
  by (auto simp: setInvariant_def)

lemma NewStreamingSet_setInvariant:
  assumes "NewStreamingSet hvb w vChan = Inr s"
  shows "setInvariant s"
proof -
  from assms obtain w' where w: "w = Some w'"
    by (cases w) (auto simp: NewStreamingSet_def newStreamingSet_def)
  have good: "\<not> (None \<in> set vChan \<or> \<not> sorted_wrt (<) (map the vChan))"
    using NewStreamingSet_bad[of vChan hvb w'] assms w by auto
  then have e: "map Some (map the vChan) = vChan"
    by (induction vChan) auto
  from good have srt: "sorted_wrt (<) (map the vChan)" by simp
  from NewStreamingSet_good[OF srt, of hvb w'] e assms w srt show ?thesis
    by (auto simp: setInvariant_def)
qed

text \<open>
  C3: for every finite list of values, \<^verbatim>\<open>NewSet\<close> returns a set whose items are the
  list \<^verbatim>\<open>buildSetData\<close> computes: exactly the distinct values of the input,
  duplicates collapsed, in strictly increasing order. Iterating the set
  (\<^verbatim>\<open>IterAll\<close>) yields those items in that order, each once, and \<^verbatim>\<open>Len\<close> is their
  number.
\<close>

theorem NewSet_sorted_distinct:
  "\<exists>s. NewSet hvb w vs = Inr s \<and> items (seq s) = buildSetData vs \<and>
        IterAll s = Inr (buildSetData vs) \<and> Len s = length (buildSetData vs) \<and>
        set (buildSetData vs) = set vs \<and> sorted_wrt (<) (buildSetData vs) \<and>
        distinct (buildSetData vs)"
proof -
  from NewSet_ok[of hvb w vs] obtain s where
    n: "NewSet hvb w vs = Inr s" and wf: "wfSeq (seq s)" and it: "items (seq s) = buildSetData vs"
    by blast
  have "IterAll s = Inr (buildSetData vs)" using IterAll_items[OF wf] it by simp
  moreover have "Len s = length (buildSetData vs)"
    using numLeaves_items[OF wf] it by (simp add: Len_def)
  moreover have "distinct (buildSetData vs)"
    using buildSetData_sorted[of vs] by (simp add: strict_sorted_iff)
  ultimately show ?thesis
    using n it buildSetData_set[of vs] buildSetData_sorted[of vs] by blast
qed

text \<open>
  C9: \<^verbatim>\<open>NewSet\<close> of no values returns a set value, whose root is a single empty
  leaf; its \<^verbatim>\<open>Len\<close> is 0, \<^verbatim>\<open>Empty\<close> is true, and iterating it (\<^verbatim>\<open>IterAll\<close>, or
  \<^verbatim>\<open>Iter\<close> with any callback) ends at once without handing out an item.
\<close>

theorem NewSet_empty:
  "NewSet hvb w [] = Inr (newSet (Leaf [])) \<and>
   Len (newSet (Leaf [])) = 0 \<and> Empty (newSet (Leaf [])) \<and>
   IterAll (newSet (Leaf [])) = Inr [] \<and> Iter (newSet (Leaf [])) cb = Inr []"
  by (simp add: NewSet_def buildSetData_def newEmptySetSequenceChunker_def
        newEmptySequenceChunker_def Done_def makeSetLeafChunkFn_def newSet_def Len_def Empty_def
        IterAll_def Iter_def newCursorAtIndex_def iter.simps valid_def)

text \<open>
  C10: for every set \<open>s\<close> (a set value satisfies \<open>setInvariant\<close>) and every index
  \<open>i\<close>, \<^verbatim>\<open>s.At(i)\<close> panics exactly when \<open>i \<ge> s.Len()\<close>, with the out-of-bounds
  message; for \<open>i < s.Len()\<close> it returns the item at position \<open>i\<close> of the strictly
  increasing order in which iteration yields the members.
\<close>

theorem At_in_bounds:
  "setInvariant s \<Longrightarrow>
     (At s i = Inl p \<longleftrightarrow> i \<ge> Len s \<and> p = OutOfBounds i (Len s)) \<and>
     (\<exists>out. IterAll s = Inr out \<and> length out = Len s \<and> sorted_wrt (<) out \<and>
            (i < Len s \<longrightarrow> At s i = Inr (out ! i)))"
  by (auto simp: setInvariant_def At_items IterAll_items Len_def numLeaves_items)

theorem At_in_bounds_witness:
  "At \<lparr>seq = Meta [MetaTuple (Leaf [1::nat, 2]) (Some 2) 2, MetaTuple (Leaf [3]) (Some 3) 1]\<rparr> 2 = Inr 3
   \<and> At \<lparr>seq = Meta [MetaTuple (Leaf [1::nat, 2]) (Some 2) 2, MetaTuple (Leaf [3]) (Some 3) 1]\<rparr> 3
       = Inl (OutOfBounds 3 3)
   \<and> IterAll \<lparr>seq = Meta [MetaTuple (Leaf [1::nat, 2]) (Some 2) 2, MetaTuple (Leaf [3]) (Some 3) 1]\<rparr>
       = Inr [1, 2, 3]
   \<and> NewSet everyTwo (None::unit option) [3, 1, 3, 2]
       = Inr \<lparr>seq = Meta [MetaTuple (Leaf [1, 2]) (Some 2) 2, MetaTuple (Leaf [3]) (Some 3) 1]\<rparr>"
proof -
  let ?s = "\<lparr>seq = Meta [MetaTuple (Leaf [1::nat, 2]) (Some 2) 2, MetaTuple (Leaf [3]) (Some 3) 1]\<rparr>"
  have n: "NewSet everyTwo (None::unit option) [3, 1, 3, 2] = Inr ?s"
    by code_simp
  have wf: "wfSeq (seq ?s)" by simp
  have inv: "setInvariant ?s" by (simp add: setInvariant_def)
  have l: "Len ?s = 3" by (simp add: Len_def)
  have a: "At ?s 2 = Inr 3" "At ?s 3 = Inl (OutOfBounds 3 3)"
    by (simp_all add: At_def Len_def current_def newCursorAtIndex_def)
  from At_in_bounds[OF inv, of 2 PanicIfFalse] At_in_bounds[OF inv, of 3 "OutOfBounds 3 3"]
    IterAll_items[OF wf] a l n
  show ?thesis by simp
qed

theorem NewStreamingSet_order:
  "((None \<in> set vChan \<or> \<not> sorted_wrt (<) (map the vChan)) \<longrightarrow>
      (NewStreamingSet hvb (Some w) vChan = Inl PanicIfTrue \<or>
       NewStreamingSet hvb (Some w) vChan = Inl PanicIfFalse))
   \<and> (\<not> (None \<in> set vChan \<or> \<not> sorted_wrt (<) (map the vChan)) \<longrightarrow>
        (\<exists>s. NewStreamingSet hvb (Some w) vChan = Inr s \<and> IterAll s = Inr (map the vChan)))"
proof (intro conjI impI)
  assume "None \<in> set vChan \<or> \<not> sorted_wrt (<) (map the vChan)"
  then show "NewStreamingSet hvb (Some w) vChan = Inl PanicIfTrue \<or>
       NewStreamingSet hvb (Some w) vChan = Inl PanicIfFalse"
    by (rule NewStreamingSet_bad)
next
  assume g: "\<not> (None \<in> set vChan \<or> \<not> sorted_wrt (<) (map the vChan))"
  then have e: "map Some (map the vChan) = vChan"
    by (induction vChan) auto
  from g have s: "sorted_wrt (<) (map the vChan)" by simp
  from NewStreamingSet_good[OF s, of hvb w] e obtain st where
    "NewStreamingSet hvb (Some w) vChan = Inr st" "wfSeq (seq st)" "items (seq st) = map the vChan"
    by auto
  then show "\<exists>s. NewStreamingSet hvb (Some w) vChan = Inr s \<and> IterAll s = Inr (map the vChan)"
    using IterAll_items by fastforce
qed

theorem NewStreamingSet_order_witness:
  "NewStreamingSet everyTwo (Some ()) [Some 1, Some 3, Some 2] = Inl PanicIfFalse
   \<and> NewStreamingSet everyTwo (Some ()) [Some 1, None, Some 2] = Inl PanicIfTrue
   \<and> NewStreamingSet everyTwo (Some ()) [Some 1, Some 2, Some 3]
       = Inr \<lparr>seq = Meta [MetaTuple (Leaf [1, 2]) (Some 2) 2, MetaTuple (Leaf [3]) (Some 3) 1]\<rparr>
   \<and> IterAll \<lparr>seq = Meta [MetaTuple (Leaf [1::nat, 2]) (Some 2) 2, MetaTuple (Leaf [3]) (Some 3) 1]\<rparr>
       = Inr [1, 2, 3]"
proof -
  have a: "NewStreamingSet everyTwo (Some ()) [Some 1, Some 3, Some 2] = Inl PanicIfFalse"
    by code_simp
  have b: "NewStreamingSet everyTwo (Some ()) [Some 1, None, Some 2] = Inl PanicIfTrue"
    by code_simp
  have c: "NewStreamingSet everyTwo (Some ()) [Some 1, Some 2, Some 3]
       = Inr \<lparr>seq = Meta [MetaTuple (Leaf [1, 2]) (Some 2) 2, MetaTuple (Leaf [3]) (Some 3) 1]\<rparr>"
    by code_simp
  from NewStreamingSet_order[of "[Some 1, Some 3, Some 2]" everyTwo "()"]
       NewStreamingSet_order[of "[Some 1, None, Some 2]" everyTwo "()"]
       NewStreamingSet_order[of "[Some 1, Some 2, Some (3::nat)]" everyTwo "()"] a b c
  show ?thesis by simp
qed

subsection \<open>The three diff algorithms\<close>

lemma removed_inj [simp]: "removed a = removed b \<longleftrightarrow> a = b"
  by (simp add: removed_def)

lemma added_inj [simp]: "added a = added b \<longleftrightarrow> a = b"
  by (simp add: added_def)

lemma removed_not_added [simp]: "removed a \<noteq> added b" "added b \<noteq> removed a"
  by (simp_all add: removed_def added_def)

lemma changes_skip: "x \<notin> A \<Longrightarrow> x \<notin> B \<Longrightarrow> changes (insert x A) (insert x B) = changes A B"
  by (auto simp: changes_def)

lemma changes_removed: "x \<notin> B \<Longrightarrow> changes (insert x A) B = insert (removed x) (changes A B)"
  by (auto simp: changes_def)

lemma changes_added: "y \<notin> A \<Longrightarrow> changes A (insert y B) = insert (added y) (changes A B)"
  by (auto simp: changes_def)

lemma changes_empty [simp]:
  "changes {} B = added ` B" "changes A {} = removed ` A"
  by (auto simp: changes_def)

lemma leftRight_set:
  "sorted_wrt (<) xs \<Longrightarrow> sorted_wrt (<) ys \<Longrightarrow>
     set (leftRight xs ys) = changes (set xs) (set ys)"
proof (induction xs ys rule: leftRight.induct)
  case (1 ys)
  then show ?case by simp
next
  case (2 x xs)
  then show ?case by simp
next
  case (3 x xs y ys)
  from "3.prems" have sx: "sorted_wrt (<) xs" and sy: "sorted_wrt (<) ys"
    and xx: "x \<notin> set xs" and yy: "y \<notin> set ys"
    and lx: "\<forall>z\<in>set xs. x < z" and ly: "\<forall>z\<in>set ys. y < z" by auto
  show ?case
  proof (cases "x = y")
    case True
    with "3.IH"(1)[OF True sx sy] xx yy show ?thesis
      by (simp add: changes_skip)
  next
    case False
    show ?thesis
    proof (cases "x < y")
      case True
      with ly have "x \<notin> set (y # ys)" by auto
      with "3.IH"(2)[OF False True sx "3.prems"(2)] False True show ?thesis
        by (simp add: changes_removed)
    next
      case ge: False
      with False have "y < x" by simp
      with lx have "y \<notin> set (x # xs)" by auto
      with "3.IH"(3)[OF False ge "3.prems"(1) sy] False ge show ?thesis
        by (simp add: changes_added)
    qed
  qed
qed

lemma items_child [simp]: "items (child t) = tupleItems t"
  by (cases t) simp

lemma subtreeItems_simps [simp]:
  "subtreeItems [] = []"
  "subtreeItems (x # xs) = items x @ subtreeItems xs"
  "subtreeItems (map child ts @ xs) = concat (map tupleItems ts) @ subtreeItems xs"
  by (simp_all add: subtreeItems_def comp_def)

lemma changes_common:
  "I \<inter> A = {} \<Longrightarrow> I \<inter> B = {} \<Longrightarrow> changes (I \<union> A) (I \<union> B) = changes A B"
  by (auto simp: changes_def)

lemma sorted_append_disjoint:
  "sorted_wrt (<) (xs @ ys) \<Longrightarrow> set xs \<inter> set (ys::'v::linorder list) = {}"
  by (fastforce simp: sorted_wrt_append)

lemma diffSubtrees_set:
  "sorted_wrt (<) (subtreeItems xs) \<Longrightarrow> sorted_wrt (<) (subtreeItems ys) \<Longrightarrow>
     set (diffSubtrees budget xs ys) = changes (set (subtreeItems xs)) (set (subtreeItems ys))"
proof (induction budget xs ys rule: diffSubtrees.induct)
  case (1 budget xs ys)
  note sx = "1.prems"(1) and sy = "1.prems"(2)
  show ?case
  proof (cases "budget = Some 0")
    case True
    then have "diffSubtrees budget xs ys = leftRight (subtreeItems xs) (subtreeItems ys)"
      by (subst diffSubtrees.simps) simp
    with leftRight_set[OF sx sy] show ?thesis by simp
  next
    case nz: False
    define b' where "b' = map_option (\<lambda>n. n - 1) budget"
    show ?thesis
    proof (cases xs)
      case Nil
      with nz have "diffSubtrees budget xs ys = map added (subtreeItems ys)"
        by (subst diffSubtrees.simps) simp
      with Nil show ?thesis by simp
    next
      case xs: (Cons x xs')
      show ?thesis
      proof (cases ys)
        case Nil
        with nz xs have "diffSubtrees budget xs ys = map removed (subtreeItems xs)"
          by (subst diffSubtrees.simps) simp
        with Nil show ?thesis by simp
      next
        case ys: (Cons y ys')
        from sx xs have sx': "sorted_wrt (<) (subtreeItems xs')"
          and dx: "set (items x) \<inter> set (subtreeItems xs') = {}"
          by (auto simp: sorted_wrt_append)
        from sy ys have sy': "sorted_wrt (<) (subtreeItems ys')"
          and dy: "set (items y) \<inter> set (subtreeItems ys') = {}"
          by (auto simp: sorted_wrt_append)
        show ?thesis
        proof (cases "x = y")
          case True
          with nz xs ys have eq: "diffSubtrees budget xs ys = diffSubtrees b' xs' ys'"
            by (subst diffSubtrees.simps) (simp add: b'_def)
          from "1.IH"(1)[OF nz b'_def xs ys True sx' sy']
          have "set (diffSubtrees b' xs' ys') =
                changes (set (subtreeItems xs')) (set (subtreeItems ys'))" .
          with eq xs ys True dx dy show ?thesis
            by (simp add: changes_common)
        next
          case ne: False
          show ?thesis
          proof (cases x)
            case xm: (Meta ts)
            show ?thesis
            proof (cases y)
              case ym: (Meta us)
              from nz xs ys ne xm ym
              have eq: "diffSubtrees budget xs ys =
                        diffSubtrees b' (map child ts @ xs') (map child us @ ys')"
                by (subst diffSubtrees.simps) (simp add: b'_def)
              from sx xs xm have s1: "sorted_wrt (<) (subtreeItems (map child ts @ xs'))" by simp
              from sy ys ym have s2: "sorted_wrt (<) (subtreeItems (map child us @ ys'))" by simp
              from "1.IH"(9)[OF nz b'_def xs ys ne xm ym s1 s2] eq xs ys xm ym
              show ?thesis by simp
            next
              case yl: (Leaf bs)
              from nz xs ys ne xm yl
              have eq: "diffSubtrees budget xs ys = diffSubtrees b' (map child ts @ xs') ys"
                by (subst diffSubtrees.simps) (simp add: b'_def)
              from sx xs xm have s1: "sorted_wrt (<) (subtreeItems (map child ts @ xs'))" by simp
              from "1.IH"(8)[OF nz b'_def xs ys ne xm yl s1 sy] eq xs xm
              show ?thesis by simp
            qed
          next
            case xl: (Leaf as)
            show ?thesis
            proof (cases y)
              case ym: (Meta us)
              from nz xs ys ne xl ym
              have eq: "diffSubtrees budget xs ys = diffSubtrees b' xs (map child us @ ys')"
                by (subst diffSubtrees.simps) (simp add: b'_def)
              from sy ys ym have s2: "sorted_wrt (<) (subtreeItems (map child us @ ys'))" by simp
              from "1.IH"(7)[OF nz b'_def xs ys ne xl ym sx s2] eq ys ym
              show ?thesis by simp
            next
              case yl: (Leaf bs)
              show ?thesis
              proof (cases as)
                case Nil
                from nz xs ys ne xl yl Nil
                have eq: "diffSubtrees budget xs ys = diffSubtrees b' xs' ys"
                  by (subst diffSubtrees.simps) (simp add: b'_def)
                from "1.IH"(2)[OF nz b'_def xs ys ne xl yl Nil sx' sy] eq xs xl Nil
                show ?thesis by simp
              next
                case as: (Cons a as')
                show ?thesis
                proof (cases bs)
                  case Nil
                  from nz xs ys ne xl yl as Nil
                  have eq: "diffSubtrees budget xs ys = diffSubtrees b' xs ys'"
                    by (subst diffSubtrees.simps) (simp add: b'_def)
                  from "1.IH"(3)[OF nz b'_def xs ys ne xl yl as Nil sx sy'] eq ys yl Nil
                  show ?thesis by simp
                next
                  case bs: (Cons b bs')
                  let ?X = "Leaf as' # xs'" and ?Y = "Leaf bs' # ys'"
                  from sx xs xl as have sX: "sorted_wrt (<) (subtreeItems ?X)"
                    and aX: "a \<notin> set (subtreeItems ?X)"
                    and lX: "\<forall>z\<in>set (subtreeItems ?X). a < z"
                    and iX: "subtreeItems xs = a # subtreeItems ?X" by auto
                  from sy ys yl bs have sY: "sorted_wrt (<) (subtreeItems ?Y)"
                    and bY: "b \<notin> set (subtreeItems ?Y)"
                    and lY: "\<forall>z\<in>set (subtreeItems ?Y). b < z"
                    and iY: "subtreeItems ys = b # subtreeItems ?Y" by auto
                  show ?thesis
                  proof (cases "a = b")
                    case True
                    from nz xs ys ne xl yl as bs True
                    have eq: "diffSubtrees budget xs ys = diffSubtrees b' ?X ?Y"
                      by (subst diffSubtrees.simps) (simp add: b'_def)
                    from "1.IH"(4)[OF nz b'_def xs ys ne xl yl as bs True sX sY] eq iX iY True aX bY
                    show ?thesis by (simp add: changes_skip)
                  next
                    case nab: False
                    show ?thesis
                    proof (cases "a < b")
                      case True
                      from nz xs ys ne xl yl as bs nab True
                      have eq: "diffSubtrees budget xs ys = removed a # diffSubtrees b' ?X ys"
                        by (subst diffSubtrees.simps) (simp add: b'_def)
                      from True lY iY have "a \<notin> set (subtreeItems ys)" by (auto dest: less_trans)
                      with "1.IH"(5)[OF nz b'_def xs ys ne xl yl as bs nab True sX sy] eq iX
                      show ?thesis by (simp add: changes_removed)
                    next
                      case nlt: False
                      from nz xs ys ne xl yl as bs nab nlt
                      have eq: "diffSubtrees budget xs ys = added b # diffSubtrees b' xs ?Y"
                        by (subst diffSubtrees.simps) (simp add: b'_def)
                      from nab nlt have "b < a" by simp
                      with lX iX have "b \<notin> set (subtreeItems xs)" by (auto dest: less_trans)
                      with "1.IH"(6)[OF nz b'_def xs ys ne xl yl as bs nab nlt sx sY] eq iY
                      show ?thesis by (simp add: changes_added)
                    qed
                  qed
                qed
              qed
            qed
          qed
        qed
      qed
    qed
  qed
qed

lemma orderedSequenceDiffLeftRight_set:
  assumes "setInvariant s" and "setInvariant last'"
  shows "orderedSequenceDiffLeftRight (seq last') (seq s) =
           Inr (leftRight (items (seq last')) (items (seq s)))"
  using assms
  by (simp add: orderedSequenceDiffLeftRight_def setInvariant_def newCursorAtIndex_def
        iter_all_drop)

lemma changes_same [simp]: "changes A A = {}"
  by (simp add: changes_def)

text \<open>
  C2: for every pair of sets (each a set value, satisfying \<open>setInvariant\<close>), \<^verbatim>\<open>Diff\<close>
  (top-down), \<^verbatim>\<open>DiffHybrid\<close> (with any bound) and \<^verbatim>\<open>DiffLeftRight\<close> emit the same
  set of change records: the removals of the items only the old set has and the
  additions of the items only the new set has.
\<close>

theorem Diff_algorithms_agree:
  assumes "setInvariant s" and "setInvariant last'"
  shows "\<exists>c1 c2 c3.
           Diff s last' = Inr c1 \<and> DiffHybrid lookahead s last' = Inr c2 \<and>
           DiffLeftRight s last' = Inr c3 \<and>
           set c1 = set c2 \<and> set c2 = set c3 \<and>
           set c1 = changes (set (items (seq last'))) (set (items (seq s)))"
proof (cases "Equals s last'")
  case True
  then show ?thesis
    by (simp add: Diff_def DiffHybrid_def DiffLeftRight_def Equals_def)
next
  case False
  from assms have sl: "sorted_wrt (<) (subtreeItems [seq last'])"
    and ss: "sorted_wrt (<) (subtreeItems [seq s])"
    by (simp_all add: setInvariant_def)
  have td: "set (diffSubtrees None [seq last'] [seq s]) =
            changes (set (items (seq last'))) (set (items (seq s)))"
    using diffSubtrees_set[OF sl ss, of None] by simp
  have hy: "set (diffSubtrees (Some lookahead) [seq last'] [seq s]) =
            changes (set (items (seq last'))) (set (items (seq s)))"
    using diffSubtrees_set[OF sl ss, of "Some lookahead"] by simp
  have lr: "set (leftRight (items (seq last')) (items (seq s))) =
            changes (set (items (seq last'))) (set (items (seq s)))"
    using assms by (simp add: leftRight_set setInvariant_def)
  from False td hy lr orderedSequenceDiffLeftRight_set[OF assms] show ?thesis
    by (simp add: Diff_def DiffHybrid_def DiffLeftRight_def orderedSequenceDiffTopDown_def
          orderedSequenceDiffBest_def)
qed

theorem Diff_algorithms_agree_witness:
  "Diff (exampleSet [1, 2, 4, 5, 6]) (exampleSet [1, 2, 3, 4, 5]) = Inr [removed 3, added 6]
   \<and> DiffHybrid 2 (exampleSet [1, 2, 4, 5, 6]) (exampleSet [1, 2, 3, 4, 5])
       = Inr [removed 3, added 6]
   \<and> DiffLeftRight (exampleSet [1, 2, 4, 5, 6]) (exampleSet [1, 2, 3, 4, 5])
       = Inr [removed 3, added 6]
   \<and> changes (set (items (seq (exampleSet [1, 2, 3, 4, 5]))))
             (set (items (seq (exampleSet [1, 2, 4, 5, 6])))) = {removed 3, added 6}"
proof -
  have i1: "setInvariant (exampleSet [1, 2, 4, 5, 6])"
    using NewSet_ok[of everyTwo "None :: unit option" "[1, 2, 4, 5, 6]"]
      buildSetData_sorted[of "[1, 2, 4, 5, 6 :: nat]"]
    by (auto simp: exampleSet_def setInvariant_def)
  have i2: "setInvariant (exampleSet [1, 2, 3, 4, 5])"
    using NewSet_ok[of everyTwo "None :: unit option" "[1, 2, 3, 4, 5]"]
      buildSetData_sorted[of "[1, 2, 3, 4, 5 :: nat]"]
    by (auto simp: exampleSet_def setInvariant_def)
  have a: "Diff (exampleSet [1, 2, 4, 5, 6]) (exampleSet [1, 2, 3, 4, 5])
             = Inr [removed 3, added 6]"
    by code_simp
  have b: "DiffHybrid 2 (exampleSet [1, 2, 4, 5, 6]) (exampleSet [1, 2, 3, 4, 5])
             = Inr [removed 3, added 6]"
    by code_simp
  have c: "DiffLeftRight (exampleSet [1, 2, 4, 5, 6]) (exampleSet [1, 2, 3, 4, 5])
             = Inr [removed 3, added 6]"
    by code_simp
  from Diff_algorithms_agree[OF i1 i2, of 2] a b c show ?thesis by auto
qed

end
